theory Spec2Isabelle
  imports Complex_Main "HOL-Library.Multiset" "HOL-Library.Product_Lexorder"
begin

section \<open>Block kernels (BlockedMatrix.cpp)\<close>

text \<open>
  A block is the C array \<open>double[BLOCK_SIZE * BLOCK_SIZE]\<close>, stored row by row. The
  header that fixes \<open>BLOCK_SIZE\<close> is not among the sources, so the block side is the
  parameter \<open>d\<close> of the two generic kernels; \<open>blockInvert3x3\<close> is written for side 3
  in the source itself. The kernels receive their blocks as separate arrays (the
  arguments do not overlap), so a kernel is a function from the blocks it reads to the
  block it writes.

  The kernels are written once, with the operations \<open>+\<close>, \<open>-\<close>, \<open>*\<close>, \<open>/\<close> of the source,
  for every type that has these operations; no law of arithmetic is built in. They are
  used at two types: \<open>double\<close>, the arithmetic the code runs on, and \<open>real\<close>, exact
  arithmetic (\<open>Block\<close> is a block of real numbers). What is proved for every type holds of
  the code; what is proved for \<open>real\<close> only is a statement about exact arithmetic.
\<close>

subsection \<open>Double-precision numbers\<close>

text \<open>
  A \<open>double\<close> is an IEEE 754 binary64 number: a finite number with its sign (\<open>True\<close> is
  minus; there are two zeros) and its magnitude, an infinity with its sign, or a NaN.
  Every operation computes the exact result and rounds it once, to the nearest
  representable number, ties to the even significand: the magnitude is rounded to a
  multiple of \<open>quantum\<close>, the spacing of the doubles near it (53 significant bits, never
  finer than \<open>2 ^ -1074\<close>), and a result that rounds to \<open>2 ^ 1024\<close> or more is an infinity.
  The binary exponent of a positive magnitude \<open>m\<close> is \<open>ilog2 m\<close>, the integer \<open>e\<close> with
  \<open>2 ^ e \<le> m < 2 ^ (e + 1)\<close>, found by halving or doubling \<open>m\<close>.
  Operations on infinities, zeros and NaNs follow the standard: \<open>0 * inf\<close>, \<open>inf - inf\<close>,
  \<open>0 / 0\<close> and \<open>inf / inf\<close> are NaN, and a NaN operand gives NaN. NaN payloads and the
  exception flags are not modelled. A \<open>Fin\<close> value stands for a double when its magnitude
  is not negative and is representable; the operations return such values. The instances
  proved below involve only results that are exact or that overflow, so they do not depend
  on whether a compiler fuses a multiplication with an addition.
\<close>

datatype double = Fin bool real | Inf bool | NaN

definition roundEven :: "real \<Rightarrow> int" where
  "roundEven y =
     (let f = \<lfloor>y\<rfloor>
      in if y - of_int f < 1 / 2 then f
         else if 1 / 2 < y - of_int f then f + 1
         else if even f then f else f + 1)"

function ilog2 :: "real \<Rightarrow> int" where
  "ilog2 m =
     (if m \<le> 0 then 0
      else if 2 \<le> m then ilog2 (m / 2) + 1
      else if m < 1 then ilog2 (m * 2) - 1
      else 0)"
  by pat_completeness auto
termination
proof (relation "measure (\<lambda>m. nat \<bar>\<lfloor>log 2 m\<rfloor>\<bar>)", goal_cases)
  case 1
  show ?case by simp
next
  case (2 m)
  then have "log 2 (m / 2) = log 2 m - 1" "1 \<le> log 2 m"
    by (simp_all add: log_divide le_log_iff)
  then have "\<lfloor>log 2 (m / 2)\<rfloor> = \<lfloor>log 2 m\<rfloor> - 1" "1 \<le> \<lfloor>log 2 m\<rfloor>"
    by (simp_all add: le_floor_iff)
  then show ?case by simp
next
  case (3 m)
  then have "log 2 (m * 2) = log 2 m + 1" "log 2 m < 0"
    by (simp_all add: log_mult)
  then have "\<lfloor>log 2 (m * 2)\<rfloor> = \<lfloor>log 2 m\<rfloor> + 1" "\<lfloor>log 2 m\<rfloor> < 0"
    by (simp_all add: floor_less_iff)
  then have "nat \<bar>\<lfloor>log 2 (m * 2)\<rfloor>\<bar> < nat \<bar>\<lfloor>log 2 m\<rfloor>\<bar>"
    by linarith
  then show ?case by simp
qed

declare ilog2.simps [simp del]

definition quantum :: "real \<Rightarrow> real" where
  "quantum m = 2 powi (max (ilog2 m - 52) (- 1074))"

definition roundMag :: "bool \<Rightarrow> real \<Rightarrow> double" where
  "roundMag s m =
     (if m = 0 then Fin s 0
      else let r = of_int (roundEven (m / quantum m)) * quantum m
           in if 2 ^ 1024 \<le> r then Inf s else Fin s r)"

definition signed :: "bool \<Rightarrow> real \<Rightarrow> real" where
  "signed s m = (if s then - m else m)"

fun addDouble :: "double \<Rightarrow> double \<Rightarrow> double" where
  "addDouble (Fin s a) (Fin t b) =
     (let v = signed s a + signed t b
      in if v = 0 then Fin (s \<and> t) 0 else roundMag (v < 0) \<bar>v\<bar>)"
| "addDouble (Fin s a) (Inf t) = Inf t"
| "addDouble (Inf s) (Fin t b) = Inf s"
| "addDouble (Inf s) (Inf t) = (if s = t then Inf s else NaN)"
| "addDouble NaN y = NaN"
| "addDouble x NaN = NaN"

fun negDouble :: "double \<Rightarrow> double" where
  "negDouble (Fin s a) = Fin (\<not> s) a"
| "negDouble (Inf s) = Inf (\<not> s)"
| "negDouble NaN = NaN"

fun mulDouble :: "double \<Rightarrow> double \<Rightarrow> double" where
  "mulDouble (Fin s a) (Fin t b) = roundMag (s \<noteq> t) (a * b)"
| "mulDouble (Fin s a) (Inf t) = (if a = 0 then NaN else Inf (s \<noteq> t))"
| "mulDouble (Inf s) (Fin t b) = (if b = 0 then NaN else Inf (s \<noteq> t))"
| "mulDouble (Inf s) (Inf t) = Inf (s \<noteq> t)"
| "mulDouble NaN y = NaN"
| "mulDouble x NaN = NaN"

fun divDouble :: "double \<Rightarrow> double \<Rightarrow> double" where
  "divDouble (Fin s a) (Fin t b) =
     (if b = 0 then (if a = 0 then NaN else Inf (s \<noteq> t)) else roundMag (s \<noteq> t) (a / b))"
| "divDouble (Fin s a) (Inf t) = Fin (s \<noteq> t) 0"
| "divDouble (Inf s) (Fin t b) = Inf (s \<noteq> t)"
| "divDouble (Inf s) (Inf t) = NaN"
| "divDouble NaN y = NaN"
| "divDouble x NaN = NaN"

instantiation double :: "{zero, one, plus, minus, uminus, times, inverse}"
begin

definition zero_double :: double where
  "zero_double = Fin False 0"

definition one_double :: double where
  "one_double = Fin False 1"

definition plus_double :: "double \<Rightarrow> double \<Rightarrow> double" where
  "plus_double x y = addDouble x y"

definition uminus_double :: "double \<Rightarrow> double" where
  "uminus_double x = negDouble x"

definition minus_double :: "double \<Rightarrow> double \<Rightarrow> double" where
  "minus_double x y = addDouble x (negDouble y)"

definition times_double :: "double \<Rightarrow> double \<Rightarrow> double" where
  "times_double x y = mulDouble x y"

definition divide_double :: "double \<Rightarrow> double \<Rightarrow> double" where
  "divide_double x y = divDouble x y"

definition inverse_double :: "double \<Rightarrow> double" where
  "inverse_double x = divDouble (Fin False 1) x"

instance ..

end

subsection \<open>The kernels\<close>

type_synonym Block = "real list"

definition dotRowCol ::
  "nat \<Rightarrow> 'a::{zero,plus,times} list \<Rightarrow> 'a list \<Rightarrow> nat \<Rightarrow> nat \<Rightarrow> 'a" where
  "dotRowCol d b c row col =
     fold (\<lambda>k temp. temp + b ! (d * row + k) * c ! (d * k + col)) [0..<d] 0"

definition blockMultSub ::
  "nat \<Rightarrow> 'a::{zero,plus,minus,times} list \<Rightarrow> 'a list \<Rightarrow> 'a list \<Rightarrow> 'a list" where
  "blockMultSub d a b c =
     fold (\<lambda>row a.
       fold (\<lambda>col a. a[d * row + col := a ! (d * row + col) - dotRowCol d b c row col])
         [0..<d] a)
       [0..<d] a"

definition blockMult ::
  "nat \<Rightarrow> 'a::{zero,plus,times} list \<Rightarrow> 'a list \<Rightarrow> 'a list \<Rightarrow> 'a list" where
  "blockMult d mat1 mat2 resMat =
     fold (\<lambda>row resMat.
       fold (\<lambda>col resMat. resMat[d * row + col := dotRowCol d mat1 mat2 row col])
         [0..<d] resMat)
       [0..<d] resMat"

text \<open>
  \<open>blockInvert3x3\<close> has one exit, the normal one: nothing tests \<open>det\<close> before
  \<open>1.0 / det\<close> and nothing is thrown. The result type has room for the breakdown
  signal of the specification, so that its absence from the body is a statement.
  \<open>det3x3\<close> is the value the source computes into \<open>det\<close>, in the arithmetic of the
  entries.
\<close>

datatype kernel_error = NumericBreakdown

definition det3x3 :: "'a::{plus,minus,times} list \<Rightarrow> 'a" where
  "det3x3 mat =
     (let t4 = mat ! 0 * mat ! 4;
          t6 = mat ! 0 * mat ! 5;
          t8 = mat ! 1 * mat ! 3;
          t10 = mat ! 2 * mat ! 3;
          t12 = mat ! 1 * mat ! 6;
          t14 = mat ! 2 * mat ! 6
      in t4 * mat ! 8 - t6 * mat ! 7 - t8 * mat ! 8 + t10 * mat ! 7 + t12 * mat ! 5 - t14 * mat ! 4)"

definition blockInvert3x3 ::
  "'a::{one,plus,minus,uminus,times,inverse} list \<Rightarrow> 'a list \<Rightarrow> kernel_error + 'a list" where
  "blockInvert3x3 mat res =
     (let t4 = mat ! 0 * mat ! 4;
          t6 = mat ! 0 * mat ! 5;
          t8 = mat ! 1 * mat ! 3;
          t10 = mat ! 2 * mat ! 3;
          t12 = mat ! 1 * mat ! 6;
          t14 = mat ! 2 * mat ! 6;
          det = t4 * mat ! 8 - t6 * mat ! 7 - t8 * mat ! 8 + t10 * mat ! 7 + t12 * mat ! 5 - t14 * mat ! 4;
          t17 = 1 / det
      in Inr (res
          [0 := (mat ! 4 * mat ! 8 - mat ! 5 * mat ! 7) * t17,
           1 := - (mat ! 1 * mat ! 8 - mat ! 2 * mat ! 7) * t17,
           2 := (mat ! 1 * mat ! 5 - mat ! 2 * mat ! 4) * t17,
           3 := - (mat ! 3 * mat ! 8 - mat ! 5 * mat ! 6) * t17,
           4 := (mat ! 0 * mat ! 8 - t14) * t17,
           5 := - (t6 - t10) * t17,
           6 := (mat ! 3 * mat ! 7 - mat ! 4 * mat ! 6) * t17,
           7 := - (mat ! 0 * mat ! 7 - t12) * t17,
           8 := (t4 - t8) * t17]))"



section \<open>Sorting one row (BlockedMatrix.cpp)\<close>

text \<open>
  \<open>sortBlockedRow\<close> works in place on two parallel C arrays, the column indices and the
  blocks, between the positions \<open>left\<close> and \<open>right\<close>. The model passes both arrays in and
  returns them; a block is any value, moved whole as \<open>memcpy\<close> moves it. Positions are C
  \<open>int\<close>s, modelled as integers. The arrays have at most \<open>INT_MAX\<close> entries, so stepping a
  position inside them cannot overflow; the sum \<open>l + r\<close> can, and the model stops there.
  A read or write outside the arrays is undefined in C: the model returns \<open>None\<close>.
  When \<open>l = r\<close> the exchange copies an entry onto itself and leaves it as it is.
  The two inner \<open>while\<close> loops are \<open>scanUp\<close> and \<open>scanDown\<close>, the \<open>if (l <= r)\<close> block
  is \<open>swapIfOrdered\<close>, the \<open>do ... while (l < r)\<close> loop is \<open>partitionLoop\<close>. All of them
  are total functions: each loop and the recursion come with a termination proof.
\<close>

definition INT_MAX :: int where
  "INT_MAX = 2147483647"

function scanUp :: "int list \<Rightarrow> int \<Rightarrow> int \<Rightarrow> int option" where
  "scanUp colIndices middle l =
     (if l < 0 \<or> int (length colIndices) \<le> l then None
      else if colIndices ! nat l < middle then scanUp colIndices middle (l + 1)
      else Some l)"
  by pat_completeness auto
termination
  by (relation "measure (\<lambda>(colIndices, middle, l). nat (int (length colIndices) - l))") auto

function scanDown :: "int list \<Rightarrow> int \<Rightarrow> int \<Rightarrow> int option" where
  "scanDown colIndices middle r =
     (if r < 0 \<or> int (length colIndices) \<le> r then None
      else if colIndices ! nat r > middle then scanDown colIndices middle (r - 1)
      else Some r)"
  by pat_completeness auto
termination
  by (relation "measure (\<lambda>(colIndices, middle, r). nat (r + 1))") auto

declare scanUp.simps [simp del] scanDown.simps [simp del]

definition swapIfOrdered ::
  "int list \<Rightarrow> 'b list \<Rightarrow> int \<Rightarrow> int \<Rightarrow> (int list \<times> 'b list \<times> int \<times> int) option" where
  "swapIfOrdered colIndices data l r =
     (if l \<le> r then
        if l < 0 \<or> int (length colIndices) \<le> r \<or> int (length data) \<le> r then None
        else
          let lColIndex = colIndices ! nat l;
              colIndices = colIndices[nat l := colIndices ! nat r];
              colIndices = colIndices[nat r := lColIndex];
              lDatum = data ! nat l;
              data = data[nat l := data ! nat r];
              data = data[nat r := lDatum]
          in Some (colIndices, data, l + 1, r - 1)
      else Some (colIndices, data, l, r))"

lemma scanUp_ge: "scanUp colIndices middle l = Some l' \<Longrightarrow> l \<le> l'"
proof (induction colIndices middle l rule: scanUp.induct)
  case (1 colIndices middle l)
  then show ?case
    by (subst (asm) (2) scanUp.simps) (force split: if_splits)
qed

lemma scanDown_le: "scanDown colIndices middle r = Some r' \<Longrightarrow> r' \<le> r"
proof (induction colIndices middle r rule: scanDown.induct)
  case (1 colIndices middle r)
  then show ?case
    by (subst (asm) (2) scanDown.simps) (force split: if_splits)
qed

function partitionLoop ::
  "int list \<Rightarrow> 'b list \<Rightarrow> int \<Rightarrow> int \<Rightarrow> int \<Rightarrow> (int list \<times> 'b list \<times> int \<times> int) option" where
  "partitionLoop colIndices data middle l r =
     (case scanUp colIndices middle l of
        None \<Rightarrow> None
      | Some l1 \<Rightarrow>
          (case scanDown colIndices middle r of
             None \<Rightarrow> None
           | Some r1 \<Rightarrow>
               (case swapIfOrdered colIndices data l1 r1 of
                  None \<Rightarrow> None
                | Some (colIndices', data', l2, r2) \<Rightarrow>
                    if l2 < r2 then partitionLoop colIndices' data' middle l2 r2
                    else Some (colIndices', data', l2, r2))))"
  by pat_completeness auto
termination
proof (relation "measure (\<lambda>(colIndices, data, middle, l, r). nat (r - l))", goal_cases)
  case 1
  show ?case by simp
next
  case (2 colIndices data middle l r l1 r1 x colIndices' y data' z l2 r2)
  then have "l \<le> l1" "r1 \<le> r"
    by (auto dest: scanUp_ge scanDown_le)
  moreover have "l2 = l1 + 1 \<and> r2 = r1 - 1"
    using 2 by (auto simp: swapIfOrdered_def Let_def split: if_splits)
  ultimately show ?case using 2 by auto
qed

declare partitionLoop.simps [simp del]

text \<open>Where the partition loop stops, as far as the termination of the sort needs it.\<close>

lemma scanUp_cases:
  assumes "scanUp colIndices middle l = Some l'"
  obtains (stop) "0 \<le> l" "l < int (length colIndices)" "\<not> colIndices ! nat l < middle" "l' = l"
  | (step) "0 \<le> l" "l < int (length colIndices)" "colIndices ! nat l < middle"
      "scanUp colIndices middle (l + 1) = Some l'"
  using assms by (subst (asm) scanUp.simps) (auto split: if_splits)

lemma scanDown_cases:
  assumes "scanDown colIndices middle r = Some r'"
  obtains (stop) "0 \<le> r" "r < int (length colIndices)" "\<not> middle < colIndices ! nat r" "r' = r"
  | (step) "0 \<le> r" "r < int (length colIndices)" "middle < colIndices ! nat r"
      "scanDown colIndices middle (r - 1) = Some r'"
  using assms by (subst (asm) scanDown.simps) (auto split: if_splits)

lemma scanUp_stops_by:
  "scanUp colIndices middle l = Some l' \<Longrightarrow> l \<le> m \<Longrightarrow> \<not> colIndices ! nat m < middle \<Longrightarrow> l' \<le> m"
proof (induction colIndices middle l rule: scanUp.induct)
  case (1 colIndices middle l)
  from "1.prems"(1) show ?case
  proof (cases rule: scanUp_cases)
    case stop
    then show ?thesis using "1.prems" by simp
  next
    case step
    then have "l \<noteq> m" using "1.prems"(3) by auto
    then show ?thesis
      using "1.IH"[OF _ step(3,4)] step(1,2) "1.prems"(2,3) by simp
  qed
qed

lemma scanDown_stops_by:
  "scanDown colIndices middle r = Some r' \<Longrightarrow> m \<le> r \<Longrightarrow> \<not> middle < colIndices ! nat m \<Longrightarrow> m \<le> r'"
proof (induction colIndices middle r rule: scanDown.induct)
  case (1 colIndices middle r)
  from "1.prems"(1) show ?case
  proof (cases rule: scanDown_cases)
    case stop
    then show ?thesis using "1.prems" by simp
  next
    case step
    then have "r \<noteq> m" using "1.prems"(3) by auto
    then show ?thesis
      using "1.IH"[OF _ step(3,4)] step(1,2) "1.prems"(2,3) by simp
  qed
qed

lemma swapIfOrdered_indices:
  "swapIfOrdered colIndices data l r = Some (colIndices', data', l', r') \<Longrightarrow>
     (l \<le> r \<longrightarrow> l' = l + 1 \<and> r' = r - 1) \<and> (r < l \<longrightarrow> l' = l \<and> r' = r)"
  by (auto simp: swapIfOrdered_def Let_def split: if_splits)

lemma partitionLoop_mono:
  "partitionLoop colIndices data middle l r = Some (colIndices', data', l', r') \<Longrightarrow> l \<le> l' \<and> r' \<le> r"
proof (induction colIndices data middle l r rule: partitionLoop.induct)
  case (1 colIndices data middle l r)
  from "1.prems" obtain l1 r1 c1 d1 l2 r2 where
    up: "scanUp colIndices middle l = Some l1" and
    down: "scanDown colIndices middle r = Some r1" and
    sw: "swapIfOrdered colIndices data l1 r1 = Some (c1, d1, l2, r2)" and
    rest: "(if l2 < r2 then partitionLoop c1 d1 middle l2 r2 else Some (c1, d1, l2, r2)) =
       Some (colIndices', data', l', r')"
    by (subst (asm) partitionLoop.simps) (auto split: option.splits)
  have a: "l \<le> l1" "r1 \<le> r"
    using up down by (auto dest: scanUp_ge scanDown_le)
  have b: "l1 \<le> l2" "r2 \<le> r1"
    using swapIfOrdered_indices[OF sw] by auto
  show ?case
  proof (cases "l2 < r2")
    case True
    then have "l2 \<le> l' \<and> r' \<le> r2"
      using "1.IH"[OF up down sw _ _ _ True] rest by simp
    then show ?thesis using a b by simp
  next
    case False
    then show ?thesis using rest a b by simp
  qed
qed

lemma partitionLoop_progress:
  assumes "partitionLoop colIndices data (colIndices ! nat m) l r = Some (colIndices', data', l', r')"
    and "l \<le> m" "m \<le> r"
  shows "l < l' \<and> r' < r"
proof -
  let ?v = "colIndices ! nat m"
  from assms(1) obtain l1 r1 c1 d1 l2 r2 where
    up: "scanUp colIndices ?v l = Some l1" and
    down: "scanDown colIndices ?v r = Some r1" and
    sw: "swapIfOrdered colIndices data l1 r1 = Some (c1, d1, l2, r2)" and
    rest: "(if l2 < r2 then partitionLoop c1 d1 ?v l2 r2 else Some (c1, d1, l2, r2)) =
       Some (colIndices', data', l', r')"
    by (subst (asm) partitionLoop.simps) (auto split: option.splits)
  have a: "l \<le> l1" "r1 \<le> r"
    using up down by (auto dest: scanUp_ge scanDown_le)
  have "l1 \<le> m" "m \<le> r1"
    using scanUp_stops_by[OF up assms(2)] scanDown_stops_by[OF down assms(3)] by simp_all
  then have b: "l2 = l1 + 1" "r2 = r1 - 1"
    using swapIfOrdered_indices[OF sw] by auto
  have "l2 \<le> l' \<and> r' \<le> r2"
    using rest partitionLoop_mono[of c1 d1 ?v l2 r2] by (auto split: if_splits)
  then show ?thesis using a b by simp
qed

function sortBlockedRow ::
  "int list \<Rightarrow> 'b list \<Rightarrow> int \<Rightarrow> int \<Rightarrow> (int list \<times> 'b list) option" where
  "sortBlockedRow colIndices data left right =
     (if INT_MAX < left + right then None
      else if (left + right) div 2 < 0 \<or> int (length colIndices) \<le> (left + right) div 2 then None
      else
        (case partitionLoop colIndices data (colIndices ! nat ((left + right) div 2)) left right of
           None \<Rightarrow> None
         | Some (colIndices1, data1, l, r) \<Rightarrow>
             (case (if left < r then sortBlockedRow colIndices1 data1 left r
                    else Some (colIndices1, data1)) of
                None \<Rightarrow> None
              | Some (colIndices2, data2) \<Rightarrow>
                  if right > l then sortBlockedRow colIndices2 data2 l right
                  else Some (colIndices2, data2))))"
  by pat_completeness auto
termination
proof (relation "measure (\<lambda>(colIndices, data, left, right). nat (right - left))", goal_cases)
  case 1
  show ?case by simp
next
  case (2 colIndices data left right x colIndices1 y data1 z l r)
  then have p: "partitionLoop colIndices data (colIndices ! nat ((left + right) div 2)) left right =
      Some (colIndices1, data1, l, r)"
    by simp
  have "r < right"
  proof (cases "left \<le> right")
    case True
    then show ?thesis using partitionLoop_progress[OF p] by simp
  next
    case False
    then show ?thesis using partitionLoop_mono[OF p] 2 by simp
  qed
  then show ?case using 2 by simp
next
  case (3 colIndices data left right x colIndices1 y data1 z l r x2 colIndices2 data2)
  then have p: "partitionLoop colIndices data (colIndices ! nat ((left + right) div 2)) left right =
      Some (colIndices1, data1, l, r)"
    by simp
  have "left < l"
  proof (cases "left \<le> right")
    case True
    then show ?thesis using partitionLoop_progress[OF p] by simp
  next
    case False
    then show ?thesis using partitionLoop_mono[OF p] 3 by simp
  qed
  then show ?case using 3 by simp
qed

declare sortBlockedRow.simps [simp del]

text \<open>The entries of a list from position \<open>a\<close> up to, not including, position \<open>b\<close>.\<close>

definition slice :: "'a list \<Rightarrow> nat \<Rightarrow> nat \<Rightarrow> 'a list" where
  "slice xs a b = take (b - a) (drop a xs)"


text \<open>A row too long for its positions: \<open>2 ^ 30 + 2\<close> entries.\<close>

definition hugeColIndices :: "int list" where
  "hugeColIndices = map int [0..<2 ^ 30 + 2]"

definition hugeData :: "Block list" where
  "hugeData = replicate (2 ^ 30 + 2) (replicate 9 0)"


section \<open>Allocation, release and soft copy (BlockedMatrix.cpp)\<close>

text \<open>
  A \<open>BlockedMatrix\<close> holds three pointers and two counts. Pointers are addresses, with
  \<open>None\<close> for the null pointer. The heap keeps the arrays and the matrix structs that are
  live, each under its address; \<open>new\<close> hands out the next unused address. The storage
  that \<open>new T[n]\<close> returns is not initialised by the source (the arrays are created
  without an initialiser), so its contents are whatever the heap holds there:
  \<open>rawBlocks\<close> and \<open>rawInts\<close>. \<open>new BlockedMatrix()\<close> value-initialises the struct.
  A negative array length makes \<open>new\<close> throw, \<open>Nb + 1\<close> overflows at \<open>INT_MAX\<close>, and
  reading or deleting through a pointer that is not live is undefined: each is an error
  value. Running out of memory is not modelled.
\<close>

type_synonym addr = nat

record BlockedMatrix =
  nnzValues :: "addr option"
  colIndices :: "addr option"
  rowPointers :: "addr option"
  Nb :: int
  nnzbs :: int

record 'b heap =
  blockArrays :: "addr \<rightharpoonup> 'b list"
  intArrays :: "addr \<rightharpoonup> int list"
  matrices :: "addr \<rightharpoonup> BlockedMatrix"
  nextAddr :: addr
  rawBlocks :: "addr \<Rightarrow> nat \<Rightarrow> 'b"
  rawInts :: "addr \<Rightarrow> nat \<Rightarrow> int"

datatype mem_error = BadArrayNewLength | SignedOverflow | InvalidPointer

definition newBlockArray :: "'b heap \<Rightarrow> int \<Rightarrow> mem_error + ('b heap \<times> addr)" where
  "newBlockArray h n =
     (if n < 0 then Inl BadArrayNewLength
      else let a = nextAddr h
           in Inr (h\<lparr>blockArrays := (blockArrays h)(a \<mapsto> map (rawBlocks h a) [0..<nat n]),
                      nextAddr := Suc a\<rparr>, a))"

definition newIntArray :: "'b heap \<Rightarrow> int \<Rightarrow> mem_error + ('b heap \<times> addr)" where
  "newIntArray h n =
     (if n < 0 then Inl BadArrayNewLength
      else let a = nextAddr h
           in Inr (h\<lparr>intArrays := (intArrays h)(a \<mapsto> map (rawInts h a) [0..<nat n]),
                      nextAddr := Suc a\<rparr>, a))"

definition newBlockedMatrix :: "'b heap \<Rightarrow> 'b heap \<times> addr" where
  "newBlockedMatrix h =
     (let a = nextAddr h
      in (h\<lparr>matrices := (matrices h)(a \<mapsto>
              \<lparr>nnzValues = None, colIndices = None, rowPointers = None, Nb = 0, nnzbs = 0\<rparr>),
            nextAddr := Suc a\<rparr>, a))"



definition setField :: "'b heap \<Rightarrow> addr \<Rightarrow> (BlockedMatrix \<Rightarrow> BlockedMatrix) \<Rightarrow> 'b heap" where
  "setField h mat f = h\<lparr>matrices := (matrices h)(mat := map_option f (matrices h mat))\<rparr>"

definition allocateBlockedMatrix :: "'b heap \<Rightarrow> int \<Rightarrow> int \<Rightarrow> mem_error + ('b heap \<times> addr)" where
  "allocateBlockedMatrix h Nb' nnzbs' =
     (let (h0, mat) = newBlockedMatrix h
      in case newBlockArray h0 nnzbs' of
           Inl e \<Rightarrow> Inl e
         | Inr (h1, va) \<Rightarrow>
             let h1 = setField h1 mat (\<lambda>m. m\<lparr>nnzValues := Some va\<rparr>)
             in case newIntArray h1 nnzbs' of
                  Inl e \<Rightarrow> Inl e
                | Inr (h2, ca) \<Rightarrow>
                    let h2 = setField h2 mat (\<lambda>m. m\<lparr>colIndices := Some ca\<rparr>)
                    in if Nb' = INT_MAX then Inl SignedOverflow
                       else case newIntArray h2 (Nb' + 1) of
                              Inl e \<Rightarrow> Inl e
                            | Inr (h3, ra) \<Rightarrow>
                                let h3 = setField h3 mat (\<lambda>m. m\<lparr>rowPointers := Some ra\<rparr>);
                                    h3 = setField h3 mat (\<lambda>m. m\<lparr>Nb := Nb'\<rparr>);
                                    h3 = setField h3 mat (\<lambda>m. m\<lparr>nnzbs := nnzbs'\<rparr>)
                                in Inr (h3, mat))"


definition soft_copyBlockedMatrix :: "'b heap \<Rightarrow> addr option \<Rightarrow> mem_error + ('b heap \<times> addr)" where
  "soft_copyBlockedMatrix h mat =
     (case mat of
        None \<Rightarrow> Inl InvalidPointer
      | Some p \<Rightarrow>
          (case matrices h p of
             None \<Rightarrow> Inl InvalidPointer
           | Some m \<Rightarrow>
               let (h0, res) = newBlockedMatrix h;
                   h0 = setField h0 res (\<lambda>r. r\<lparr>nnzValues := nnzValues m\<rparr>);
                   h0 = setField h0 res (\<lambda>r. r\<lparr>colIndices := colIndices m\<rparr>);
                   h0 = setField h0 res (\<lambda>r. r\<lparr>rowPointers := rowPointers m\<rparr>);
                   h0 = setField h0 res (\<lambda>r. r\<lparr>Nb := Nb m\<rparr>);
                   h0 = setField h0 res (\<lambda>r. r\<lparr>nnzbs := nnzbs m\<rparr>)
               in Inr (h0, res)))"

definition staleHeap :: "Block heap" where
  "staleHeap = \<lparr>blockArrays = Map.empty, intArrays = Map.empty, matrices = Map.empty,
     nextAddr = 0, rawBlocks = (\<lambda>a i. replicate 9 7), rawInts = (\<lambda>a i. 7)\<rparr>"


definition nnzValuesOf :: "'b heap \<Rightarrow> addr \<Rightarrow> 'b list option" where
  "nnzValuesOf h mat =
     (case matrices h mat of None \<Rightarrow> None
      | Some m \<Rightarrow> (case nnzValues m of None \<Rightarrow> None | Some a \<Rightarrow> blockArrays h a))"

definition colIndicesOf :: "'b heap \<Rightarrow> addr \<Rightarrow> int list option" where
  "colIndicesOf h mat =
     (case matrices h mat of None \<Rightarrow> None
      | Some m \<Rightarrow> (case colIndices m of None \<Rightarrow> None | Some a \<Rightarrow> intArrays h a))"

definition rowPointersOf :: "'b heap \<Rightarrow> addr \<Rightarrow> int list option" where
  "rowPointersOf h mat =
     (case matrices h mat of None \<Rightarrow> None
      | Some m \<Rightarrow> (case rowPointers m of None \<Rightarrow> None | Some a \<Rightarrow> intArrays h a))"


text \<open>Two heaps for the examples: one with stale storage, one with a 1 by 1 matrix.\<close>

definition sampleHeap :: "Block heap" where
  "sampleHeap = \<lparr>blockArrays = [1 \<mapsto> [[1, 0, 0, 0, 1, 0, 0, 0, 1]]], intArrays = [2 \<mapsto> [0], 3 \<mapsto> [0, 1]],
     matrices = [0 \<mapsto> \<lparr>nnzValues = Some 1, colIndices = Some 2, rowPointers = Some 3, Nb = 1, nnzbs = 1\<rparr>],
     nextAddr = 4, rawBlocks = (\<lambda>a i. replicate 9 7), rawInts = (\<lambda>a i. 7)\<rparr>"


section \<open>Sorting the NNCs and applying EDITNNC (nncsorter.cpp)\<close>

text \<open>
  \<open>NNCdata\<close> has the two cell indices (\<open>size_t\<close>, here natural numbers) and the
  transmissibility (a double, here a real number). Iterators into \<open>nncData\<close> are
  positions, \<open>nncData.end()\<close> is the length. Reading \<open>candidate->cell1\<close> with the
  iterator at the end is the error \<open>ReadAtEnd\<close>. \<open>std::sort\<close> leaves the order of
  entries with equal cells open, so it is a parameter of the model. \<open>std::lower_bound\<close>
  is the position the C++ standard defines: the furthest position such that every entry
  from \<open>first\<close> up to it is less than the value. The warnings that \<open>OpmLog::warning\<close>
  receives are kept as the list of the cell pairs they name. \<open>multiplyMatches\<close> is the
  \<open>while\<close> loop that multiplies the matching entries (its \<open>candidate != nncData.end()\<close>
  is \<open>candidate < length nncData\<close>, the iterator never being beyond the end), and
  \<open>applyEdits\<close> is the \<open>for\<close> loop over the edits, with the iterator \<open>candidate\<close> and
  the warnings so far as its state: a \<open>continue\<close> is the call for the remaining edits.
\<close>

record NNCdata =
  cell1 :: nat
  cell2 :: nat
  trans :: real

definition nncLess :: "NNCdata \<Rightarrow> NNCdata \<Rightarrow> bool" where
  "nncLess d1 d2 \<longleftrightarrow>
     cell1 d1 < cell1 d2 \<or> (cell1 d1 = cell1 d2 \<and> cell2 d1 < cell2 d2)"

datatype nnc_error = ReadAtEnd

definition lower_bound :: "NNCdata list \<Rightarrow> nat \<Rightarrow> NNCdata \<Rightarrow> nat" where
  "lower_bound nncData first val =
     first + length (takeWhile (\<lambda>d. nncLess d val) (drop first nncData))"

function multiplyMatches :: "NNCdata list \<Rightarrow> nat \<Rightarrow> NNCdata \<Rightarrow> NNCdata list" where
  "multiplyMatches nncData candidate edit =
     (if candidate < length nncData
         \<and> cell1 (nncData ! candidate) = cell1 edit
         \<and> cell2 (nncData ! candidate) = cell2 edit
      then multiplyMatches
             (nncData[candidate := (nncData ! candidate)
                \<lparr>trans := trans (nncData ! candidate) * trans edit\<rparr>])
             (candidate + 1) edit
      else nncData)"
  by pat_completeness auto
termination
  by (relation "measure (\<lambda>(nncData, candidate, edit). length nncData - candidate)") auto

declare multiplyMatches.simps [simp del]

fun applyEdits ::
  "NNCdata list \<Rightarrow> nat \<Rightarrow> (nat \<times> nat) list \<Rightarrow> bool \<Rightarrow> NNCdata list
     \<Rightarrow> nnc_error + (NNCdata list \<times> (nat \<times> nat) list)" where
  "applyEdits nncData candidate warnings log' [] = Inr (nncData, warnings)"
| "applyEdits nncData candidate warnings log' (edit # editnncData) =
     (if candidate = length nncData \<and> log'
      then applyEdits nncData candidate (warnings @ [(cell1 edit, cell2 edit)]) log' editnncData
      else if length nncData \<le> candidate then Inl ReadAtEnd
      else if cell1 (nncData ! candidate) \<noteq> cell1 edit \<or> cell2 (nncData ! candidate) \<noteq> cell2 edit
      then
        (let candidate = lower_bound nncData candidate
                           \<lparr>cell1 = cell1 edit, cell2 = cell2 edit, trans = 0\<rparr>
         in if candidate = length nncData \<and> log'
            then applyEdits nncData candidate (warnings @ [(cell1 edit, cell2 edit)]) log' editnncData
            else applyEdits (multiplyMatches nncData candidate edit) candidate warnings log'
                   editnncData)
      else applyEdits (multiplyMatches nncData candidate edit) candidate warnings log' editnncData)"

definition sortNncAndApplyEditnnc ::
  "(NNCdata list \<Rightarrow> NNCdata list) \<Rightarrow> NNCdata list \<Rightarrow> NNCdata list \<Rightarrow> bool
     \<Rightarrow> nnc_error + (NNCdata list \<times> (nat \<times> nat) list)" where
  "sortNncAndApplyEditnnc std_sort nncData editnncData log' =
     applyEdits (std_sort nncData) 0 [] log' editnncData"

text \<open>
  A sort to run the function with: insertion sort with \<open>nncLess\<close>. The theorems below
  hold for every \<open>std_sort\<close> that returns a sorted permutation.
\<close>

fun insertNnc :: "NNCdata \<Rightarrow> NNCdata list \<Rightarrow> NNCdata list" where
  "insertNnc d [] = [d]"
| "insertNnc d (x # xs) = (if nncLess x d then x # insertNnc d xs else d # x # xs)"

definition insertionSort :: "NNCdata list \<Rightarrow> NNCdata list" where
  "insertionSort xs = foldr insertNnc xs []"

text \<open>Sorted by (cell1, then cell2): no later entry is less than an earlier one.\<close>

definition nncSorted :: "NNCdata list \<Rightarrow> bool" where
  "nncSorted xs = sorted_wrt (\<lambda>a b. \<not> nncLess b a) xs"


text \<open>
  What the claim asks of an entry's transmissibility: the original value multiplied by the
  \<open>trans\<close> of every edit for the same cell pair, in the order of the edits.
\<close>

definition editedTrans :: "NNCdata list \<Rightarrow> NNCdata \<Rightarrow> real" where
  "editedTrans editnncData d =
     foldl (\<lambda>t e. t * trans e) (trans d)
       (filter (\<lambda>e. cell1 e = cell1 d \<and> cell2 e = cell2 d) editnncData)"


text \<open>For the proofs: the sort key of an entry, and what one edit does to one entry.\<close>

definition nncKey :: "NNCdata \<Rightarrow> nat \<times> nat" where
  "nncKey d = (cell1 d, cell2 d)"

definition editOne :: "NNCdata \<Rightarrow> NNCdata \<Rightarrow> NNCdata" where
  "editOne edit d =
     (if cell1 d = cell1 edit \<and> cell2 d = cell2 edit then d\<lparr>trans := trans d * trans edit\<rparr> else d)"


section \<open>Block kernels: proofs\<close>

lemma cell_index_bound: "row < d \<Longrightarrow> col < d \<Longrightarrow> d * row + col < d * (d::nat)"
proof -
  assume a: "row < d" "col < d"
  have "d * row + col < d * row + d" using a by simp
  also have "\<dots> = d * Suc row" by simp
  also have "\<dots> \<le> d * d" using a by (intro mult_le_mono2) simp
  finally show ?thesis .
qed

lemma cell_index_inj:
  "c < d \<Longrightarrow> c' < d \<Longrightarrow> d * r + c = d * r' + c' \<longleftrightarrow> r = r' \<and> c = (c'::nat)"
proof
  assume a: "c < d" "c' < d" and e: "d * r + c = d * r' + c'"
  have "(d * r + c) div d = r" "(d * r + c) mod d = c" using a by simp_all
  moreover have "(d * r' + c') div d = r'" "(d * r' + c') mod d = c'" using a by simp_all
  ultimately show "r = r' \<and> c = c'" using e by metis
qed simp

text \<open>The shape shared by both kernels: visit the cells row by row, column by column.\<close>

lemma row_sweep:
  fixes a :: "'a list" and upd :: "'a \<Rightarrow> nat \<Rightarrow> 'a"
  assumes "length a = d * d" "row < d" "n \<le> d"
  defines "a' \<equiv> fold (\<lambda>col a. a[d * row + col := upd (a ! (d * row + col)) col]) [0..<n] a"
  shows "length a' = d * d \<and>
         (\<forall>r<d. \<forall>c<d. a' ! (d * r + c) =
            (if r = row \<and> c < n then upd (a ! (d * r + c)) c else a ! (d * r + c)))"
  unfolding a'_def using assms(3)
proof (induction n)
  case 0
  then show ?case using assms(1) by simp
next
  case (Suc n)
  then have n: "n < d" and ih: "length (fold (\<lambda>col a. a[d * row + col := upd (a ! (d * row + col)) col]) [0..<n] a) = d * d"
    "\<And>r c. r < d \<Longrightarrow> c < d \<Longrightarrow> fold (\<lambda>col a. a[d * row + col := upd (a ! (d * row + col)) col]) [0..<n] a ! (d * r + c) =
            (if r = row \<and> c < n then upd (a ! (d * r + c)) c else a ! (d * r + c))"
    by auto
  show ?case
    using n assms(2) ih(1) cell_index_bound[of _ d]
    by (auto simp: ih nth_list_update cell_index_inj less_Suc_eq)
qed

lemma cells_sweep:
  fixes a :: "'a list" and upd :: "nat \<Rightarrow> 'a \<Rightarrow> nat \<Rightarrow> 'a"
  assumes "length a = d * d" "m \<le> d"
  defines "a' \<equiv> fold (\<lambda>row a. fold (\<lambda>col a. a[d * row + col := upd row (a ! (d * row + col)) col]) [0..<d] a) [0..<m] a"
  shows "length a' = d * d \<and>
         (\<forall>r<d. \<forall>c<d. a' ! (d * r + c) =
            (if r < m then upd r (a ! (d * r + c)) c else a ! (d * r + c)))"
  unfolding a'_def using assms(2)
proof (induction m)
  case 0
  then show ?case using assms(1) by simp
next
  case (Suc m)
  let ?prev = "fold (\<lambda>row a. fold (\<lambda>col a. a[d * row + col := upd row (a ! (d * row + col)) col]) [0..<d] a) [0..<m] a"
  from Suc have m: "m < d" and len: "length ?prev = d * d"
    and ih: "\<And>r c. r < d \<Longrightarrow> c < d \<Longrightarrow> ?prev ! (d * r + c) = (if r < m then upd r (a ! (d * r + c)) c else a ! (d * r + c))"
    by auto
  note rs = row_sweep[OF len m order_refl, of "upd m"]
  show ?case
    using rs m by (auto simp: ih less_Suc_eq)
qed

lemma dotRowCol_sum:
  fixes b c :: "real list"
  shows "dotRowCol d b c row col = (\<Sum>k<d. b ! (d * row + k) * c ! (d * k + col))"
proof -
  have "fold (\<lambda>k temp. temp + h k) [0..<n] (0::real) = (\<Sum>k<n. h k)" for h n
    by (induction n) simp_all
  then show ?thesis by (simp add: dotRowCol_def)
qed

lemma blockMultSub_cells:
  assumes "length a = d * d"
  shows "length (blockMultSub d a b c) = d * d"
    and "row < d \<Longrightarrow> col < d \<Longrightarrow>
      blockMultSub d a b c ! (d * row + col) = a ! (d * row + col) - dotRowCol d b c row col"
  using cells_sweep[OF assms order_refl, of "\<lambda>row x col. x - dotRowCol d b c row col"]
  by (simp_all add: blockMultSub_def)

lemma blockMult_cells:
  assumes "length resMat = d * d"
  shows "length (blockMult d mat1 mat2 resMat) = d * d"
    and "row < d \<Longrightarrow> col < d \<Longrightarrow>
      blockMult d mat1 mat2 resMat ! (d * row + col) = dotRowCol d mat1 mat2 row col"
  using cells_sweep[OF assms order_refl, of "\<lambda>row x col. dotRowCol d mat1 mat2 row col"]
  by (simp_all add: blockMult_def)

lemma length9_cases:
  assumes "length (xs :: 'a list) = 9"
  obtains x0 x1 x2 x3 x4 x5 x6 x7 x8 where "xs = [x0, x1, x2, x3, x4, x5, x6, x7, x8]"
proof -
  have "\<exists>x0 x1 x2 x3 x4 x5 x6 x7 x8. xs = [x0, x1, x2, x3, x4, x5, x6, x7, x8]"
    using assms by (simp add: numeral_eq_Suc length_Suc_conv) blast
  then show ?thesis using that by blast
qed






lemma cell_index_decompose:
  assumes "i < d * (d::nat)"
  obtains row col where "row < d" "col < d" "i = d * row + col"
proof -
  have d: "0 < d" using assms by (cases d) auto
  have "i div d < d" using assms by (simp add: less_mult_imp_div_less mult.commute)
  moreover have "i mod d < d" using d by simp
  moreover have "i = d * (i div d) + i mod d" by simp
  ultimately show ?thesis using that by blast
qed

subsection \<open>C7: multiply-subtract\<close>

text \<open>
  In every arithmetic, rounding or not: each entry that \<open>blockMultSub\<close> leaves is the old
  entry minus the sum the inner loop has accumulated, and the whole block is the old block
  minus what \<open>blockMult\<close> computes.
\<close>

lemma blockMultSub_minus_blockMult:
  assumes "length a = d * d" "length resMat = d * d"
  shows "blockMultSub d a b c = map2 (-) a (blockMult d b c resMat)"
proof (rule nth_equalityI)
  have len: "length (blockMultSub d a b c) = d * d"
    by (rule blockMultSub_cells(1)[OF assms(1)])
  show "length (blockMultSub d a b c) = length (map2 (-) a (blockMult d b c resMat))"
    using len assms(1) blockMult_cells(1)[OF assms(2)] by simp
  fix i assume "i < length (blockMultSub d a b c)"
  then have i: "i < d * d" using len by simp
  then obtain row col where rc: "row < d" "col < d" "i = d * row + col"
    by (rule cell_index_decompose)
  show "blockMultSub d a b c ! i = map2 (-) a (blockMult d b c resMat) ! i"
    using i assms(1) blockMult_cells(1)[OF assms(2), of b c]
      blockMultSub_cells(2)[OF assms(1) rc(1,2), of b c]
      blockMult_cells(2)[OF assms(2) rc(1,2), of b c]
    by (simp add: rc(3))
qed

text \<open>
  Claim C7. For \<open>d \<times> d\<close> blocks \<open>a\<close>, \<open>b\<close>, \<open>c\<close>, \<open>blockMultSub\<close> leaves in \<open>a\<close>
  the old \<open>a\<close> minus the product of \<open>b\<close> and \<open>c\<close>: the entry at (row, col) is the old
  entry minus the sum over \<open>k\<close> of \<open>b[row][k] * c[k][col]\<close>, and the whole block is the old
  \<open>a\<close> minus what \<open>blockMult\<close> computes for \<open>b\<close> and \<open>c\<close> (whatever its result array
  held before).
\<close>

theorem blockMultSub_subtracts_product:
  fixes a b c resMat :: "real list"
  assumes "length a = d * d" "length b = d * d" "length c = d * d" "length resMat = d * d"
  shows "length (blockMultSub d a b c) = d * d \<and>
         (\<forall>row<d. \<forall>col<d.
            blockMultSub d a b c ! (d * row + col) =
              a ! (d * row + col) - (\<Sum>k<d. b ! (d * row + k) * c ! (d * k + col))) \<and>
         blockMultSub d a b c = map2 (-) a (blockMult d b c resMat)"
proof (intro conjI allI impI)
  show "length (blockMultSub d a b c) = d * d"
    by (rule blockMultSub_cells(1)[OF assms(1)])
  show "blockMultSub d a b c ! (d * row + col) =
          a ! (d * row + col) - (\<Sum>k<d. b ! (d * row + k) * c ! (d * k + col))"
    if "row < d" "col < d" for row col
    using blockMultSub_cells(2)[OF assms(1) that] by (simp add: dotRowCol_sum)
  show "blockMultSub d a b c = map2 (-) a (blockMult d b c resMat)"
    by (rule blockMultSub_minus_blockMult[OF assms(1,4)])
qed

text \<open>The theorem at a 2 by 2 instance.\<close>

lemma upto2: "[0..<2] = [0, 1]"
  by (simp add: upt_rec)

theorem blockMultSub_subtracts_product_witness:
  "blockMultSub 2 [10, 20, 30, 40 :: real] [1, 2, 3, 4] [5, 6, 7, 8] = [-9, -2, -13, -10] \<and>
   blockMultSub 2 [10, 20, 30, 40 :: real] [1, 2, 3, 4] [5, 6, 7, 8] =
     map2 (-) [10, 20, 30, 40] (blockMult 2 [1, 2, 3, 4] [5, 6, 7, 8] [0, 0, 0, 0])"
  using blockMultSub_subtracts_product[of "[10, 20, 30, 40]" 2 "[1, 2, 3, 4]" "[5, 6, 7, 8]" "[0, 0, 0, 0]"]
  by (simp add: blockMult_def dotRowCol_def upto2)

subsection \<open>Rounding, and the kernels on a diagonal block of doubles\<close>

text \<open>
  Powers of two within the range of the doubles are doubles, a power of two from
  \<open>2 ^ 1024\<close> on rounds to an infinity. On the diagonal block with the entries \<open>p\<close>, 1, 1
  every intermediate result of the inversion is exact up to the division \<open>1.0 / det\<close>.
\<close>

lemma roundEven_of_int [simp]: "roundEven (of_int n) = n"
  by (simp add: roundEven_def)

lemma roundMag_zero [simp]: "roundMag s 0 = Fin s 0"
  by (simp add: roundMag_def)

lemma ilog2_floor_log: "0 < m \<Longrightarrow> ilog2 m = \<lfloor>log 2 m\<rfloor>"
proof (induction m rule: ilog2.induct)
  case (1 m)
  consider "2 \<le> m" | "m < 1" | "1 \<le> m" "m < 2" by linarith
  then show ?case
  proof cases
    case 1
    then have "log 2 (m / 2) = log 2 m - 1"
      by (simp add: log_divide)
    then show ?thesis
      using "1.IH"(1) "1.prems" 1 by (subst ilog2.simps) simp
  next
    case 2
    then have "log 2 (m * 2) = log 2 m + 1"
      using "1.prems" by (simp add: log_mult)
    then show ?thesis
      using "1.IH"(2) "1.prems" 2 by (subst ilog2.simps) simp
  next
    case 3
    then have "0 \<le> log 2 m" "log 2 m < 1"
      by (simp_all add: log_less_iff)
    then have "\<lfloor>log 2 m\<rfloor> = 0" by linarith
    then show ?thesis
      using 3 by (subst ilog2.simps) simp
  qed
qed

lemma quantum_powr:
  "0 < m \<Longrightarrow> quantum m = 2 powr of_int (max (\<lfloor>log 2 m\<rfloor> - 52) (- 1074))"
  by (simp add: quantum_def ilog2_floor_log powr_real_of_int')

lemma two_powr_int: "0 \<le> j \<Longrightarrow> 2 powr (of_int j :: real) = 2 ^ nat j"
proof -
  assume "0 \<le> j"
  then have "(of_int j :: real) = real (nat j)" by simp
  then show ?thesis by (simp only: powr_realpow zero_less_numeral)
qed

lemma roundMag_powr:
  assumes "- 1074 \<le> k"
  shows "roundMag s (2 powr of_int k) = (if k < 1024 then Fin s (2 powr of_int k) else Inf s)"
proof -
  let ?m = "2 powr (of_int k :: real)"
  define e where "e = max (k - 52) (- 1074)"
  have ek: "e \<le> k" using assms by (simp add: e_def)
  have q: "quantum ?m = 2 powr of_int e"
    by (simp add: quantum_powr e_def)
  have "?m / 2 powr of_int e = 2 powr of_int (k - e)"
    by (simp add: powr_diff)
  also have "\<dots> = 2 ^ nat (k - e)"
    using ek by (intro two_powr_int) simp
  also have "\<dots> = of_int (2 ^ nat (k - e))"
    by simp
  finally have "of_int (roundEven (?m / quantum ?m)) * quantum ?m = 2 ^ nat (k - e) * 2 powr of_int e"
    unfolding q by (simp only: roundEven_of_int) simp
  also have "\<dots> = 2 powr of_int (k - e) * 2 powr of_int e"
    using ek two_powr_int[of "k - e"] by simp
  also have "\<dots> = ?m"
    by (simp add: powr_add[symmetric])
  finally have r: "of_int (roundEven (?m / quantum ?m)) * quantum ?m = ?m" .
  have "(2 ^ 1024 \<le> ?m) = (1024 \<le> k)"
  proof -
    have "(2::real) ^ 1024 = 2 powr of_int 1024"
      using two_powr_int[of 1024] by simp
    then show ?thesis by (simp only: powr_le_cancel_iff) simp
  qed
  then show ?thesis
    by (simp add: roundMag_def r Let_def)
qed

lemma roundMag_pow2: "roundMag s (2 ^ n) = (if n < 1024 then Fin s (2 ^ n) else Inf s)"
  using roundMag_powr[of "int n" s] by (simp add: powr_realpow)

lemma roundMag_inv_pow2: "n \<le> 1074 \<Longrightarrow> roundMag s (1 / 2 ^ n) = Fin s (1 / 2 ^ n)"
  using roundMag_powr[of "- int n" s] by (simp add: powr_minus powr_realpow inverse_eq_divide)

lemma roundMag_one [simp]: "roundMag s 1 = Fin s 1"
  using roundMag_pow2[of s 0] by simp

lemmas double_ops = zero_double_def one_double_def plus_double_def minus_double_def
  uminus_double_def times_double_def divide_double_def signed_def


lemma det3x3_diag:
  assumes "0 < p" "roundMag False p = Fin False p"
  shows "det3x3 [Fin False p, 0, 0, 0, 1, 0, 0, 0, 1] = Fin False p"
  using assms by (simp add: det3x3_def Let_def double_ops)

lemma blockInvert3x3_diag_finite:
  assumes "0 < p" "roundMag False p = Fin False p" "roundMag False (1 / p) = Fin False (1 / p)"
  shows "blockInvert3x3 [Fin False p, 0, 0, 0, 1, 0, 0, 0, 1] [r0, r1, r2, r3, r4, r5, r6, r7, r8] =
    Inr [Fin False (1 / p), Fin True 0, Fin False 0, Fin True 0, Fin False 1, Fin True 0,
         Fin False 0, Fin True 0, Fin False 1]"
  using assms by (simp add: blockInvert3x3_def Let_def double_ops)


lemma tiny_facts:
  "(0::real) < 1 / 2 ^ 1074"
  "roundMag False (1 / 2 ^ 1074) = Fin False (1 / 2 ^ 1074)"
  "roundMag False (1 / (1 / 2 ^ 1074)) = Inf False"
proof -
  show "(0::real) < 1 / 2 ^ 1074" by simp
  show "roundMag False (1 / 2 ^ 1074) = Fin False (1 / 2 ^ 1074)"
    by (rule roundMag_inv_pow2) simp
  have "(1::real) / (1 / 2 ^ 1074) = 2 ^ 1074"
    by (simp only: divide_divide_eq_right mult_1 div_by_1)
  then show "roundMag False (1 / (1 / 2 ^ 1074)) = Inf False"
    by (simp only: roundMag_pow2) simp
qed

lemma small_facts:
  "(0::real) < 1 / 2 ^ 1000"
  "roundMag False (1 / 2 ^ 1000) = Fin False (1 / 2 ^ 1000)"
  "roundMag False (1 / (1 / 2 ^ 1000)) = Fin False (1 / (1 / 2 ^ 1000))"
  "(1::real) / (1 / 2 ^ 1000) = 2 ^ 1000"
proof -
  show "(0::real) < 1 / 2 ^ 1000" by simp
  show "roundMag False (1 / 2 ^ 1000) = Fin False (1 / 2 ^ 1000)"
    by (rule roundMag_inv_pow2) simp
  show e: "(1::real) / (1 / 2 ^ 1000) = 2 ^ 1000"
    by (simp only: divide_divide_eq_right mult_1 div_by_1)
  show "roundMag False (1 / (1 / 2 ^ 1000)) = Fin False (1 / (1 / 2 ^ 1000))"
    unfolding e by (simp only: roundMag_pow2) simp
qed

subsection \<open>C8: the inverse times the block is the identity\<close>




subsection \<open>C1: no breakdown signal\<close>

text \<open>
  Claim C1 says that a determinant of small magnitude makes the inversion signal
  \<open>NumericBreakdown\<close>. The diagonal block of doubles with the entries \<open>1 / 2 ^ 1000\<close>, 1, 1
  has the determinant \<open>1 / 2 ^ 1000\<close>; the code divides by it and returns the diagonal
  block with the entries \<open>2 ^ 1000\<close>, 1, 1 (and zeros of either sign elsewhere).
\<close>

theorem blockInvert3x3_tiny_det_counterexample:
  "det3x3 [Fin False (1 / 2 ^ 1000), 0, 0, 0, 1, 0, 0, 0, 1] = Fin False (1 / 2 ^ 1000) \<and>
   blockInvert3x3 [Fin False (1 / 2 ^ 1000), 0, 0, 0, 1, 0, 0, 0, 1] [0, 0, 0, 0, 0, 0, 0, 0, 0] =
     Inr [Fin False (2 ^ 1000), Fin True 0, Fin False 0, Fin True 0, Fin False 1, Fin True 0,
          Fin False 0, Fin True 0, Fin False 1]"
proof -
  have "blockInvert3x3 [Fin False (1 / 2 ^ 1000), 0, 0, 0, 1, 0, 0, 0, 1] [0, 0, 0, 0, 0, 0, 0, 0, 0] =
     Inr [Fin False (1 / (1 / 2 ^ 1000)), Fin True 0, Fin False 0, Fin True 0, Fin False 1, Fin True 0,
          Fin False 0, Fin True 0, Fin False 1]"
    by (rule blockInvert3x3_diag_finite) (rule small_facts)+
  then show ?thesis
    unfolding small_facts(4) by (intro conjI det3x3_diag small_facts)
qed

text \<open>
  Claim C1 as amended. \<open>blockInvert3x3\<close> has no singularity threshold: for every 3 by 3
  block, in whatever arithmetic, it returns normally and never signals an error, and each
  entry it returns is a cofactor of the block multiplied by \<open>1.0 / det\<close>, computed without
  any test on \<open>det\<close>. On doubles a determinant so small that \<open>1.0 / det\<close> overflows gives
  infinities and NaNs: that is the instance below the theorem.
\<close>

theorem blockInvert3x3_divides_unconditionally:
  fixes mat res :: "'a::{one,plus,minus,uminus,times,inverse} list"
  assumes "length mat = 9" "length res = 9"
  shows "(\<forall>e. blockInvert3x3 mat res \<noteq> Inl e) \<and>
         blockInvert3x3 mat res = Inr
           [(mat ! 4 * mat ! 8 - mat ! 5 * mat ! 7) * (1 / det3x3 mat),
            - (mat ! 1 * mat ! 8 - mat ! 2 * mat ! 7) * (1 / det3x3 mat),
            (mat ! 1 * mat ! 5 - mat ! 2 * mat ! 4) * (1 / det3x3 mat),
            - (mat ! 3 * mat ! 8 - mat ! 5 * mat ! 6) * (1 / det3x3 mat),
            (mat ! 0 * mat ! 8 - mat ! 2 * mat ! 6) * (1 / det3x3 mat),
            - (mat ! 0 * mat ! 5 - mat ! 2 * mat ! 3) * (1 / det3x3 mat),
            (mat ! 3 * mat ! 7 - mat ! 4 * mat ! 6) * (1 / det3x3 mat),
            - (mat ! 0 * mat ! 7 - mat ! 1 * mat ! 6) * (1 / det3x3 mat),
            (mat ! 0 * mat ! 4 - mat ! 1 * mat ! 3) * (1 / det3x3 mat)]"
proof -
  obtain r0 r1 r2 r3 r4 r5 r6 r7 r8 where r: "res = [r0, r1, r2, r3, r4, r5, r6, r7, r8]"
    using assms(2) by (rule length9_cases)
  show ?thesis
    unfolding r by (simp add: blockInvert3x3_def det3x3_def Let_def)
qed

theorem blockInvert3x3_divides_unconditionally_witness:
  "blockInvert3x3 [Fin False (1 / 2 ^ 1074), 0, 0, 0, 1, 0, 0, 0, 1] [1, 1, 1, 1, 1, 1, 1, 1, 1] =
     Inr [Inf False, NaN, NaN, NaN, Inf False, NaN, NaN, NaN, Inf False]"
proof -
  have run: "blockInvert3x3 [Fin False p, 0, 0, 0, 1, 0, 0, 0, 1] [1, 1, 1, 1, 1, 1, 1, 1, 1] =
     Inr [Inf False, NaN, NaN, NaN, Inf False, NaN, NaN, NaN, Inf False]"
    if "0 < p" "roundMag False p = Fin False p" "roundMag False (1 / p) = Inf False" for p
    using blockInvert3x3_divides_unconditionally
      [of "[Fin False p, 0, 0, 0, 1, 0, 0, 0, 1]" "[1, 1, 1, 1, 1, 1, 1, 1, 1]"] that
    by (simp add: det3x3_def Let_def double_ops)
  show ?thesis
    by (rule run) (rule tiny_facts)+
qed

section \<open>Sorting one row: proofs\<close>

lemma length_slice: "b \<le> length xs \<Longrightarrow> length (slice xs a b) = b - a"
  by (simp add: slice_def)

lemma nth_slice: "b \<le> length xs \<Longrightarrow> a + k < b \<Longrightarrow> slice xs a b ! k = xs ! (a + k)"
  by (simp add: slice_def)

lemma in_set_slice:
  assumes "b \<le> length xs"
  shows "x \<in> set (slice xs a b) \<longleftrightarrow> (\<exists>n. a \<le> n \<and> n < b \<and> x = xs ! n)"
proof
  assume "x \<in> set (slice xs a b)"
  then obtain k where k: "k < length (slice xs a b)" "x = slice xs a b ! k"
    by (auto simp: in_set_conv_nth)
  then have "a + k < b" using assms by (simp add: length_slice)
  then show "\<exists>n. a \<le> n \<and> n < b \<and> x = xs ! n"
    using k(2) nth_slice[OF assms] by (intro exI[of _ "a + k"]) simp
next
  assume "\<exists>n. a \<le> n \<and> n < b \<and> x = xs ! n"
  then obtain n where n: "a \<le> n" "n < b" "x = xs ! n" by blast
  then have "n - a < length (slice xs a b)" "slice xs a b ! (n - a) = x"
    using assms nth_slice[OF assms, of a "n - a"] by (simp_all add: length_slice)
  then show "x \<in> set (slice xs a b)"
    by (metis nth_mem)
qed

lemma sorted_slice_iff:
  fixes xs :: "'a::linorder list"
  assumes "b \<le> length xs"
  shows "sorted (slice xs a b) \<longleftrightarrow> (\<forall>i j. a \<le> i \<and> i < j \<and> j < b \<longrightarrow> xs ! i \<le> xs ! j)"
proof
  assume s: "sorted (slice xs a b)"
  show "\<forall>i j. a \<le> i \<and> i < j \<and> j < b \<longrightarrow> xs ! i \<le> xs ! j"
  proof (intro allI impI)
    fix i j assume ij: "a \<le> i \<and> i < j \<and> j < b"
    then have "slice xs a b ! (i - a) \<le> slice xs a b ! (j - a)"
      using s assms by (intro sorted_nth_mono) (auto simp: length_slice)
    then show "xs ! i \<le> xs ! j"
      using ij nth_slice[OF assms, of a "i - a"] nth_slice[OF assms, of a "j - a"] by simp
  qed
next
  assume r: "\<forall>i j. a \<le> i \<and> i < j \<and> j < b \<longrightarrow> xs ! i \<le> xs ! j"
  show "sorted (slice xs a b)"
    unfolding sorted_iff_nth_mono_less
  proof (intro allI impI)
    fix i j assume "i < j" "j < length (slice xs a b)"
    then have "a + i < a + j" "a + j < b" using assms by (simp_all add: length_slice)
    then show "slice xs a b ! i \<le> slice xs a b ! j"
      using r nth_slice[OF assms, of a i] nth_slice[OF assms, of a j] by simp
  qed
qed

lemma slice_snoc: "a \<le> p \<Longrightarrow> p < length xs \<Longrightarrow> slice xs a (Suc p) = slice xs a p @ [xs ! p]"
  by (simp add: slice_def Suc_diff_le take_Suc_conv_app_nth)

lemma slice_Cons: "a < b \<Longrightarrow> b \<le> length xs \<Longrightarrow> slice xs a b = xs ! a # slice xs (Suc a) b"
proof -
  assume a: "a < b" "b \<le> length xs"
  then have "drop a xs = xs ! a # drop (Suc a) xs" by (simp add: Cons_nth_drop_Suc)
  moreover have "b - a = Suc (b - Suc a)" using a by simp
  ultimately show ?thesis by (simp add: slice_def)
qed

lemma whole_split: "a \<le> b \<Longrightarrow> xs = take a xs @ slice xs a b @ drop b xs"
proof -
  assume "a \<le> b"
  then have "drop b xs = drop (b - a) (drop a xs)" by simp
  then have "slice xs a b @ drop b xs = drop a xs"
    unfolding slice_def by (simp only: append_take_drop_id)
  then show ?thesis by simp
qed

lemma mset_slice_preserved:
  assumes "length ys = length xs" "mset ys = mset xs" "a \<le> b"
    and "\<forall>n<length xs. n < a \<or> b \<le> n \<longrightarrow> ys ! n = xs ! n"
  shows "mset (slice ys a b) = mset (slice xs a b)"
proof -
  have t: "take a ys = take a xs"
    using assms(1,4) by (intro nth_equalityI) auto
  have d: "drop b ys = drop b xs"
    using assms(1,4) by (intro nth_equalityI) auto
  have "mset (take a ys @ slice ys a b @ drop b ys) = mset (take a xs @ slice xs a b @ drop b xs)"
    using assms(2) whole_split[OF assms(3), of xs] whole_split[OF assms(3), of ys] by simp
  then show ?thesis by (simp add: t d)
qed

lemma slice_zip: "slice (zip xs ys) a b = zip (slice xs a b) (slice ys a b)"
  by (simp add: slice_def take_zip drop_zip)

lemma scanUp_spec:
  "scanUp cols middle l = Some l' \<Longrightarrow>
     l \<le> l' \<and> 0 \<le> l' \<and> l' < int (length cols) \<and> \<not> cols ! nat l' < middle \<and>
     (\<forall>n. l \<le> int n \<and> int n < l' \<longrightarrow> cols ! n < middle)"
proof (induction cols middle l rule: scanUp.induct)
  case (1 cols middle l)
  from "1.prems"(1) show ?case
  proof (cases rule: scanUp_cases)
    case stop
    then show ?thesis by simp
  next
    case step
    have ih: "l + 1 \<le> l' \<and> 0 \<le> l' \<and> l' < int (length cols) \<and> \<not> cols ! nat l' < middle \<and>
     (\<forall>n. l + 1 \<le> int n \<and> int n < l' \<longrightarrow> cols ! n < middle)"
      using "1.IH"[OF _ step(3,4)] step(1,2) by simp
    have "cols ! n < middle" if "l \<le> int n" "int n < l'" for n
    proof (cases "int n = l")
      case True
      then show ?thesis using step(3) by (metis nat_int)
    next
      case False
      then show ?thesis using ih that by simp
    qed
    then show ?thesis using ih by simp
  qed
qed

lemma scanDown_spec:
  "scanDown cols middle r = Some r' \<Longrightarrow>
     r' \<le> r \<and> 0 \<le> r' \<and> r' < int (length cols) \<and> \<not> middle < cols ! nat r' \<and>
     (\<forall>n. r' < int n \<and> int n \<le> r \<longrightarrow> middle < cols ! n)"
proof (induction cols middle r rule: scanDown.induct)
  case (1 cols middle r)
  from "1.prems"(1) show ?case
  proof (cases rule: scanDown_cases)
    case stop
    then show ?thesis by simp
  next
    case step
    have ih: "r' \<le> r - 1 \<and> 0 \<le> r' \<and> r' < int (length cols) \<and> \<not> middle < cols ! nat r' \<and>
     (\<forall>n. r' < int n \<and> int n \<le> r - 1 \<longrightarrow> middle < cols ! n)"
      using "1.IH"[OF _ step(3,4)] step(1,2) by simp
    have "middle < cols ! n" if "r' < int n" "int n \<le> r" for n
    proof (cases "int n = r")
      case True
      then show ?thesis using step(3) by (metis nat_int)
    next
      case False
      then show ?thesis using ih that by simp
    qed
    then show ?thesis using ih by simp
  qed
qed

lemma scanUp_total:
  assumes "0 \<le> l" "l \<le> int m" "m < length cols" "\<not> cols ! m < middle"
  shows "\<exists>l'. scanUp cols middle l = Some l'"
  using assms
proof (induction "nat (int m - l)" arbitrary: l)
  case 0
  then have "l = int m" by simp
  then show ?case using 0 by (subst scanUp.simps) simp
next
  case (Suc k)
  show ?case
  proof (cases "cols ! nat l < middle")
    case True
    have "\<exists>l'. scanUp cols middle (l + 1) = Some l'"
      using Suc.prems Suc.hyps(2) by (intro Suc.hyps(1)) simp_all
    then show ?thesis
      using True Suc.prems Suc.hyps(2) by (subst scanUp.simps) simp
  next
    case False
    then show ?thesis
      using Suc.prems Suc.hyps(2) by (subst scanUp.simps) simp
  qed
qed

lemma scanDown_total:
  assumes "int m \<le> r" "r < int (length cols)" "\<not> middle < cols ! m"
  shows "\<exists>r'. scanDown cols middle r = Some r'"
  using assms
proof (induction "nat (r - int m)" arbitrary: r)
  case 0
  then have "r = int m" by simp
  then show ?case using 0 by (subst scanDown.simps) simp
next
  case (Suc k)
  show ?case
  proof (cases "middle < cols ! nat r")
    case True
    have "\<exists>r'. scanDown cols middle (r - 1) = Some r'"
      using Suc.prems Suc.hyps(2) by (intro Suc.hyps(1)) simp_all
    then show ?thesis
      using True Suc.prems Suc.hyps(2) by (subst scanDown.simps) simp
  next
    case False
    then show ?thesis
      using Suc.prems Suc.hyps(2) by (subst scanDown.simps) simp
  qed
qed

lemma swapIfOrdered_swap:
  assumes "l \<le> r" "0 \<le> l" "r < int (length c)" "length d = length c"
  shows "swapIfOrdered c d l r =
    Some (c[nat l := c ! nat r, nat r := c ! nat l], d[nat l := d ! nat r, nat r := d ! nat l],
      l + 1, r - 1)"
  using assms by (simp add: swapIfOrdered_def Let_def)

lemma swapIfOrdered_skip: "r < l \<Longrightarrow> swapIfOrdered c d l r = Some (c, d, l, r)"
  by (simp add: swapIfOrdered_def)

lemma mset_zip_swap:
  assumes "i < length c" "j < length c" "length d = length c"
  shows "mset (zip (c[i := c ! j, j := c ! i]) (d[i := d ! j, j := d ! i])) = mset (zip c d)"
proof -
  have "zip (c[i := c ! j, j := c ! i]) (d[i := d ! j, j := d ! i]) =
      (zip c d)[i := zip c d ! j, j := zip c d ! i]"
    using assms by (simp add: zip_update)
  moreover have "mset ((zip c d)[i := zip c d ! j, j := zip c d ! i]) = mset (zip c d)"
    using assms by (intro mset_swap) simp_all
  ultimately show ?thesis
    by (simp only:)
qed

lemma partitionLoop_spec:
  assumes "0 \<le> left" "left \<le> l" "r \<le> right" "right < int (length c)" "length d = length c"
    and "\<exists>n. l \<le> int n \<and> int n \<le> right \<and> v \<le> c ! n"
    and "\<exists>n. left \<le> int n \<and> int n \<le> r \<and> c ! n \<le> v"
    and "\<forall>n. left \<le> int n \<and> int n < l \<longrightarrow> c ! n \<le> v"
    and "\<forall>n. r < int n \<and> int n \<le> right \<longrightarrow> v \<le> c ! n"
  shows "\<exists>c' d' l' r'. partitionLoop c d v l r = Some (c', d', l', r') \<and>
           length c' = length c \<and> length d' = length d \<and>
           r' \<le> l' \<and> l' \<le> right + 1 \<and> left - 1 \<le> r' \<and>
           (\<forall>n. left \<le> int n \<and> int n < l' \<longrightarrow> c' ! n \<le> v) \<and>
           (\<forall>n. r' < int n \<and> int n \<le> right \<longrightarrow> v \<le> c' ! n) \<and>
           (\<forall>n. int n < l \<or> r < int n \<longrightarrow> c' ! n = c ! n \<and> d' ! n = d ! n) \<and>
           mset (zip c' d') = mset (zip c d)"
  using assms
proof (induction c d v l r rule: partitionLoop.induct)
  case (1 c d v l r)
  from "1.prems"(6) obtain hi where hi: "l \<le> int hi" "int hi \<le> right" "v \<le> c ! hi" by blast
  from "1.prems"(7) obtain lo where lo: "left \<le> int lo" "int lo \<le> r" "c ! lo \<le> v" by blast
  note below = "1.prems"(8) and above = "1.prems"(9)
  obtain l1 where up: "scanUp c v l = Some l1"
    using scanUp_total[of l hi c v] hi "1.prems"(1,2,4) by auto
  obtain r1 where down: "scanDown c v r = Some r1"
    using scanDown_total[of lo r c v] lo "1.prems"(1,3,4) by auto
  have l1: "l \<le> l1" "0 \<le> l1" "l1 < int (length c)" "v \<le> c ! nat l1"
    "\<forall>n. l \<le> int n \<and> int n < l1 \<longrightarrow> c ! n < v"
    using scanUp_spec[OF up] by simp_all
  have r1: "r1 \<le> r" "0 \<le> r1" "r1 < int (length c)" "c ! nat r1 \<le> v"
    "\<forall>n. r1 < int n \<and> int n \<le> r \<longrightarrow> v < c ! n"
    using scanDown_spec[OF down] by simp_all
  have l1_hi: "l1 \<le> int hi"
    using scanUp_stops_by[OF up hi(1)] hi(3) by simp
  have r1_lo: "int lo \<le> r1"
    using scanDown_stops_by[OF down lo(2)] lo(3) by simp
  show ?case
  proof (cases "l1 \<le> r1")
    case False
    then have sw: "swapIfOrdered c d l1 r1 = Some (c, d, l1, r1)"
      by (simp add: swapIfOrdered_skip)
    have res: "partitionLoop c d v l r = Some (c, d, l1, r1)"
      using up down sw False by (subst partitionLoop.simps) simp
    have "c ! n \<le> v" if "left \<le> int n" "int n < l1" for n
      using that below l1(5) by (cases "int n < l") (auto simp: less_imp_le)
    moreover have "v \<le> c ! n" if "r1 < int n" "int n \<le> right" for n
      using that above r1(5) by (cases "r < int n") (auto simp: less_imp_le)
    ultimately show ?thesis
      using res False l1_hi hi(2) r1_lo lo(1) by simp
  next
    case True
    let ?c1 = "c[nat l1 := c ! nat r1, nat r1 := c ! nat l1]"
    let ?d1 = "d[nat l1 := d ! nat r1, nat r1 := d ! nat l1]"
    have sw: "swapIfOrdered c d l1 r1 = Some (?c1, ?d1, l1 + 1, r1 - 1)"
      using True l1(2) r1(3) "1.prems"(5) by (rule swapIfOrdered_swap)
    have len: "length ?c1 = length c" "length ?d1 = length d"
      by simp_all
    have at_l1: "?c1 ! nat l1 \<le> v"
      using l1 r1 True by (cases "l1 = r1") (simp_all add: nth_list_update)
    have at_r1: "v \<le> ?c1 ! nat r1"
      using l1 r1 True by simp
    have other: "?c1 ! n = c ! n \<and> ?d1 ! n = d ! n" if "int n \<noteq> l1" "int n \<noteq> r1" for n
      using that l1(2) r1(2) by (simp add: nth_list_update nat_eq_iff)
    have below1: "?c1 ! n \<le> v" if "left \<le> int n" "int n < l1 + 1" for n
    proof (cases "int n = l1")
      case True
      then show ?thesis using at_l1 by (metis nat_int)
    next
      case False
      then have "?c1 ! n = c ! n" using other that \<open>l1 \<le> r1\<close> by simp
      then show ?thesis
        using that False below l1(5) by (cases "int n < l") (auto simp: less_imp_le)
    qed
    have above1: "v \<le> ?c1 ! n" if "r1 - 1 < int n" "int n \<le> right" for n
    proof (cases "int n = r1")
      case True
      then show ?thesis using at_r1 by (metis nat_int)
    next
      case False
      then have "?c1 ! n = c ! n" using other that \<open>l1 \<le> r1\<close> by simp
      then show ?thesis
        using that False above r1(5) by (cases "r < int n") (auto simp: less_imp_le)
    qed
    have outside: "?c1 ! n = c ! n \<and> ?d1 ! n = d ! n" if "int n < l \<or> r < int n" for n
      using that other l1(1) r1(1) True by auto
    have perm: "mset (zip ?c1 ?d1) = mset (zip c d)"
      using l1(2,3) r1(2,3) "1.prems"(5) by (intro mset_zip_swap) simp_all
    show ?thesis
    proof (cases "l1 + 1 < r1 - 1")
      case False
      have res: "partitionLoop c d v l r = Some (?c1, ?d1, l1 + 1, r1 - 1)"
        using up down sw False by (subst partitionLoop.simps) simp
      have "r1 - 1 \<le> l1 + 1" "l1 + 1 \<le> right + 1" "left - 1 \<le> r1 - 1"
        using False True r1(1) l1(1) "1.prems"(2,3) by simp_all
      then show ?thesis
        using res len below1 above1 outside perm by simp
    next
      case again: True
      have res: "partitionLoop c d v l r = partitionLoop ?c1 ?d1 v (l1 + 1) (r1 - 1)"
        using up down sw again by (subst partitionLoop.simps) simp
      have hi1: "\<exists>n. l1 + 1 \<le> int n \<and> int n \<le> right \<and> v \<le> ?c1 ! n"
        using again r1(1,2) "1.prems"(3) at_r1 by (intro exI[of _ "nat r1"]) simp
      have lo1: "\<exists>n. left \<le> int n \<and> int n \<le> r1 - 1 \<and> ?c1 ! n \<le> v"
        using again l1(1,2) "1.prems"(2) at_l1 by (intro exI[of _ "nat l1"]) simp
      have "\<exists>c' d' l' r'. partitionLoop ?c1 ?d1 v (l1 + 1) (r1 - 1) = Some (c', d', l', r') \<and>
           length c' = length ?c1 \<and> length d' = length ?d1 \<and>
           r' \<le> l' \<and> l' \<le> right + 1 \<and> left - 1 \<le> r' \<and>
           (\<forall>n. left \<le> int n \<and> int n < l' \<longrightarrow> c' ! n \<le> v) \<and>
           (\<forall>n. r' < int n \<and> int n \<le> right \<longrightarrow> v \<le> c' ! n) \<and>
           (\<forall>n. int n < l1 + 1 \<or> r1 - 1 < int n \<longrightarrow> c' ! n = ?c1 ! n \<and> d' ! n = ?d1 ! n) \<and>
           mset (zip c' d') = mset (zip ?c1 ?d1)"
      proof (rule "1.IH"[OF up down sw _ _ _ again])
        show "0 \<le> left" by (rule "1.prems"(1))
        show "left \<le> l1 + 1" using l1(1) "1.prems"(2) by simp
        show "r1 - 1 \<le> right" using r1(1) "1.prems"(3) by simp
        show "right < int (length ?c1)" using "1.prems"(4) by simp
        show "length ?d1 = length ?c1" using "1.prems"(5) by simp
        show "\<exists>n. l1 + 1 \<le> int n \<and> int n \<le> right \<and> v \<le> ?c1 ! n" by (rule hi1)
        show "\<exists>n. left \<le> int n \<and> int n \<le> r1 - 1 \<and> ?c1 ! n \<le> v" by (rule lo1)
        show "\<forall>n. left \<le> int n \<and> int n < l1 + 1 \<longrightarrow> ?c1 ! n \<le> v" using below1 by blast
        show "\<forall>n. r1 - 1 < int n \<and> int n \<le> right \<longrightarrow> v \<le> ?c1 ! n" using above1 by blast
      qed simp_all
      then obtain c' d' l' r' where
        run: "partitionLoop ?c1 ?d1 v (l1 + 1) (r1 - 1) = Some (c', d', l', r')" and
        post: "length c' = length ?c1" "length d' = length ?d1"
          "r' \<le> l'" "l' \<le> right + 1" "left - 1 \<le> r'"
          "\<forall>n. left \<le> int n \<and> int n < l' \<longrightarrow> c' ! n \<le> v"
          "\<forall>n. r' < int n \<and> int n \<le> right \<longrightarrow> v \<le> c' ! n"
          "\<forall>n. int n < l1 + 1 \<or> r1 - 1 < int n \<longrightarrow> c' ! n = ?c1 ! n \<and> d' ! n = ?d1 ! n"
          "mset (zip c' d') = mset (zip ?c1 ?d1)"
        by blast
      have "c' ! n = c ! n \<and> d' ! n = d ! n" if "int n < l \<or> r < int n" for n
      proof -
        have "int n < l1 + 1 \<or> r1 - 1 < int n" using that l1(1) r1(1) by auto
        with post(8) have "c' ! n = ?c1 ! n \<and> d' ! n = ?d1 ! n" by blast
        then show ?thesis using outside[OF that] by (simp only:)
      qed
      then show ?thesis
        using res run post(1-7) post(9) perm len by simp
    qed
  qed
qed

lemma slice_elements_preserved:
  assumes "length ys = length xs" "mset ys = mset xs" "a \<le> b" "b \<le> length xs"
    and "\<forall>n<length xs. n < a \<or> b \<le> n \<longrightarrow> ys ! n = xs ! n"
    and "a \<le> n" "n < b"
  shows "\<exists>k. a \<le> k \<and> k < b \<and> ys ! n = xs ! k"
proof -
  have "set (slice ys a b) = set (slice xs a b)"
    using mset_slice_preserved[OF assms(1,2,3,5)] by (rule mset_eq_setD)
  moreover have "ys ! n \<in> set (slice ys a b)"
    using assms by (subst in_set_slice) auto
  ultimately have "ys ! n \<in> set (slice xs a b)" by simp
  then show ?thesis
    using assms(4) by (simp add: in_set_slice)
qed

lemma sorted_short: "length xs \<le> 1 \<Longrightarrow> sorted xs"
  by (cases xs) auto

lemma below_pivot_after_sort:
  fixes c1 :: "'a::linorder list"
  assumes len: "length c2 = length c1" "Suc p \<le> length c1" and ap: "a \<le> p"
    and K1: "\<forall>n. a \<le> n \<and> n < p \<longrightarrow> c1 ! n \<le> v"
    and M1: "mset c2 = mset c1"
    and U1: "\<forall>n. n < a \<or> Suc p \<le> n \<longrightarrow> c2 ! n = c1 ! n"
    and S1: "sorted (slice c2 a (Suc p))"
    and i: "a \<le> i" "i < p"
  shows "c2 ! i \<le> v"
proof -
  have m: "mset (slice c2 a (Suc p)) = mset (slice c1 a (Suc p))"
    using len(1) M1 by (rule mset_slice_preserved) (use ap U1 in simp_all)
  have s2: "slice c2 a (Suc p) = slice c2 a p @ [c2 ! p]"
    and s1: "slice c1 a (Suc p) = slice c1 a p @ [c1 ! p]"
    using ap len by (simp_all add: slice_snoc)
  have eq: "add_mset (c2 ! p) (mset (slice c2 a p)) = add_mset (c1 ! p) (mset (slice c1 a p))"
    using m unfolding s1 s2 by simp
  have in1: "x \<le> v" if "x \<in> set (slice c1 a p)" for x
    using that K1 len(2) by (auto simp: in_set_slice)
  have i2: "c2 ! i \<in> set (slice c2 a p)"
    using i len by (subst in_set_slice) auto
  have le_p: "c2 ! i \<le> c2 ! p"
    using S1 i len by (simp add: sorted_slice_iff)
  show ?thesis
  proof (cases "c2 ! p = c1 ! p")
    case True
    then have "mset (slice c2 a p) = mset (slice c1 a p)" using eq by simp
    then have "set (slice c2 a p) = set (slice c1 a p)" by (rule mset_eq_setD)
    then show ?thesis using i2 in1 by simp
  next
    case False
    have "c2 ! p \<in># add_mset (c1 ! p) (mset (slice c1 a p))"
      using eq by (metis union_single_eq_member)
    then have "c2 ! p \<in> set (slice c1 a p)"
      using False by simp
    then show ?thesis using in1 le_p by force
  qed
qed

lemma sorted_from_parts:
  fixes c1 :: "'a::linorder list"
  assumes len: "length c2 = length c1" "length c3 = length c1" "be \<le> length c1"
    and bounds: "a < l" "a \<le> re" "re < be" "l \<le> be" "re \<le> Suc l"
    and K1: "\<forall>n. a \<le> n \<and> n < l \<longrightarrow> c1 ! n \<le> v"
    and K2: "\<forall>n. re \<le> n \<and> n < be \<longrightarrow> v \<le> c1 ! n"
    and M1: "mset c2 = mset c1"
    and U1: "\<forall>n. n < a \<or> re \<le> n \<longrightarrow> c2 ! n = c1 ! n"
    and S1: "sorted (slice c2 a re)"
    and M2: "mset c3 = mset c2"
    and U2: "\<forall>n. n < l \<or> be \<le> n \<longrightarrow> c3 ! n = c2 ! n"
    and S2: "sorted (slice c3 l be)"
  shows "sorted (slice c3 a be)"
proof -
  have re_len: "re \<le> length c1" using bounds len by simp
  have R1: "\<exists>k. a \<le> k \<and> k < re \<and> c2 ! n = c1 ! k" if "a \<le> n" "n < re" for n
    using len(1) M1 bounds(2) re_len _ that by (rule slice_elements_preserved) (use U1 in simp)
  have R2: "\<exists>k. l \<le> k \<and> k < be \<and> c3 ! n = c2 ! k" if "l \<le> n" "n < be" for n
    using _ M2 bounds(4) _ _ that by (rule slice_elements_preserved) (use len U2 in simp_all)
  have S1': "c2 ! i \<le> c2 ! j" if "a \<le> i" "i < j" "j < re" for i j
    using S1 that re_len len by (simp add: sorted_slice_iff)
  have S2': "c3 ! i \<le> c3 ! j" if "l \<le> i" "i < j" "j < be" for i j
    using S2 that len by (simp add: sorted_slice_iff)
  have goal: "c3 ! i \<le> c3 ! j" if ij: "a \<le> i" "i < j" "j < be" for i j
  proof (cases "re \<le> l")
    case apart: True
    have low: "c3 ! n \<le> v" if n: "a \<le> n" "n < l" for n
    proof (cases "n < re")
      case True
      then obtain k where "a \<le> k" "k < re" "c2 ! n = c1 ! k"
        using R1[OF n(1)] by blast
      then show ?thesis using U2 n K1 apart by auto
    next
      case False
      then show ?thesis using U1 U2 K1 n by auto
    qed
    have high: "v \<le> c3 ! n" if n: "re \<le> n" "n < be" for n
    proof (cases "n < l")
      case True
      then show ?thesis using U1 U2 K2 n by auto
    next
      case False
      then obtain k where k: "l \<le> k" "k < be" "c3 ! n = c2 ! k"
        using R2[of n] n by force
      then show ?thesis using U1 K2 apart by auto
    qed
    consider "j < re" | "l \<le> i" | "i < l" "re \<le> j" by linarith
    then show ?thesis
    proof cases
      case 1
      then have "c3 ! i = c2 ! i" "c3 ! j = c2 ! j" using U2 ij apart by auto
      then show ?thesis using S1'[OF ij(1,2) 1] by simp
    next
      case 2
      then show ?thesis using S2' ij by simp
    next
      case 3
      then show ?thesis using low[OF ij(1)] high[OF _ ij(3)] by force
    qed
  next
    case False
    then have re: "re = Suc l" using bounds by simp
    have low: "c2 ! n \<le> v" if n: "a \<le> n" "n < l" for n
    proof (rule below_pivot_after_sort[OF len(1) _ _ _ M1 _ _ n])
      show "Suc l \<le> length c1" using re re_len by simp
      show "a \<le> l" using bounds by simp
      show "\<forall>n. a \<le> n \<and> n < l \<longrightarrow> c1 ! n \<le> v" by (rule K1)
      show "\<forall>n. n < a \<or> Suc l \<le> n \<longrightarrow> c2 ! n = c1 ! n" using U1 re by simp
      show "sorted (slice c2 a (Suc l))" using S1 re by simp
    qed
    consider "j < l" | "l \<le> i" | "i < l" "l \<le> j" by linarith
    then show ?thesis
    proof cases
      case 1
      then have "c3 ! i = c2 ! i" "c3 ! j = c2 ! j" using U2 ij by auto
      then show ?thesis using S1'[OF ij(1,2)] 1 re by simp
    next
      case 2
      then show ?thesis using S2' ij by simp
    next
      case 3
      have i3: "c3 ! i = c2 ! i" using U2 3 by simp
      obtain k where k: "l \<le> k" "k < be" "c3 ! j = c2 ! k"
        using R2[OF 3(2) ij(3)] by blast
      show ?thesis
      proof (cases "k = l")
        case True
        then show ?thesis using S1'[OF ij(1) 3(1)] re i3 k by simp
      next
        case False
        then have "re \<le> k" using k re by simp
        then have "v \<le> c2 ! k" using U1 K2 k by auto
        then show ?thesis using low[OF ij(1) 3(1)] i3 k by simp
      qed
    qed
  qed
  show ?thesis
    using goal len bounds by (simp add: sorted_slice_iff)
qed

lemma mset_columns_of_rows:
  assumes "mset (zip c' d') = mset (zip c d)" "length d' = length c'" "length d = length c"
  shows "mset c' = mset c"
proof -
  have "mset (map fst (zip c' d')) = mset (map fst (zip c d))"
    using assms(1) by (metis mset_map)
  then show ?thesis using assms(2,3) by simp
qed

lemma sortBlockedRow_spec:
  assumes "0 \<le> left" "left \<le> right" "right < int (length c)" "length d = length c"
    and "2 * right \<le> INT_MAX"
  shows "\<exists>c' d'. sortBlockedRow c d left right = Some (c', d') \<and>
           length c' = length c \<and> length d' = length d \<and>
           (\<forall>n. int n < left \<or> right < int n \<longrightarrow> c' ! n = c ! n \<and> d' ! n = d ! n) \<and>
           mset (zip c' d') = mset (zip c d) \<and>
           sorted (slice c' (nat left) (nat (right + 1)))"
  using assms
proof (induction c d left right rule: sortBlockedRow.induct)
  case (1 c d left right)
  let ?m = "(left + right) div 2"
  let ?v = "c ! nat ?m"
  note left0 = "1.prems"(1) and lr = "1.prems"(2) and rlen = "1.prems"(3) and dlen = "1.prems"(4)
    and fits = "1.prems"(5)
  have sum: "\<not> INT_MAX < left + right"
    using lr fits by simp
  have m: "left \<le> ?m" "?m \<le> right" "0 \<le> ?m" "?m < int (length c)"
    using left0 lr rlen by simp_all
  have inb: "\<not> (?m < 0 \<or> int (length c) \<le> ?m)"
    using m by simp
  have "\<exists>c1 d1 l r. partitionLoop c d ?v left right = Some (c1, d1, l, r) \<and>
           length c1 = length c \<and> length d1 = length d \<and>
           r \<le> l \<and> l \<le> right + 1 \<and> left - 1 \<le> r \<and>
           (\<forall>n. left \<le> int n \<and> int n < l \<longrightarrow> c1 ! n \<le> ?v) \<and>
           (\<forall>n. r < int n \<and> int n \<le> right \<longrightarrow> ?v \<le> c1 ! n) \<and>
           (\<forall>n. int n < left \<or> right < int n \<longrightarrow> c1 ! n = c ! n \<and> d1 ! n = d ! n) \<and>
           mset (zip c1 d1) = mset (zip c d)"
  proof (rule partitionLoop_spec[OF left0 order_refl order_refl rlen dlen])
    show "\<exists>n. left \<le> int n \<and> int n \<le> right \<and> ?v \<le> c ! n"
      using m by (intro exI[of _ "nat ?m"]) simp
    show "\<exists>n. left \<le> int n \<and> int n \<le> right \<and> c ! n \<le> ?v"
      using m by (intro exI[of _ "nat ?m"]) simp
  qed simp_all
  then obtain c1 d1 l r where
    part: "partitionLoop c d ?v left right = Some (c1, d1, l, r)" and
    len1: "length c1 = length c" "length d1 = length d" and
    ends: "r \<le> l" "l \<le> right + 1" "left - 1 \<le> r" and
    K1: "\<forall>n. left \<le> int n \<and> int n < l \<longrightarrow> c1 ! n \<le> ?v" and
    K2: "\<forall>n. r < int n \<and> int n \<le> right \<longrightarrow> ?v \<le> c1 ! n" and
    U0: "\<forall>n. int n < left \<or> right < int n \<longrightarrow> c1 ! n = c ! n \<and> d1 ! n = d ! n" and
    M0: "mset (zip c1 d1) = mset (zip c d)"
    by blast
  have prog: "left < l" "r < right"
    using partitionLoop_progress[OF part m(1,2)] by simp_all
  let ?first = "if left < r then sortBlockedRow c1 d1 left r else Some (c1, d1)"
  have "\<exists>c2 d2. ?first = Some (c2, d2) \<and>
           length c2 = length c1 \<and> length d2 = length d1 \<and>
           (\<forall>n. int n < left \<or> r < int n \<longrightarrow> c2 ! n = c1 ! n \<and> d2 ! n = d1 ! n) \<and>
           mset (zip c2 d2) = mset (zip c1 d1) \<and>
           sorted (slice c2 (nat left) (nat (r + 1)))"
  proof (cases "left < r")
    case True
    have "\<exists>c' d'. sortBlockedRow c1 d1 left r = Some (c', d') \<and>
           length c' = length c1 \<and> length d' = length d1 \<and>
           (\<forall>n. int n < left \<or> r < int n \<longrightarrow> c' ! n = c1 ! n \<and> d' ! n = d1 ! n) \<and>
           mset (zip c' d') = mset (zip c1 d1) \<and>
           sorted (slice c' (nat left) (nat (r + 1)))"
      by (rule "1.IH"(1)[OF sum inb part refl refl refl True])
         (use True left0 prog rlen len1 dlen fits in simp_all)
    then show ?thesis using True by simp
  next
    case False
    then have "length (slice c1 (nat left) (nat (r + 1))) \<le> 1"
      by (simp add: slice_def)
    then show ?thesis using False by (simp add: sorted_short)
  qed
  then obtain c2 d2 where
    first: "?first = Some (c2, d2)" and
    len2: "length c2 = length c1" "length d2 = length d1" and
    U1: "\<forall>n. int n < left \<or> r < int n \<longrightarrow> c2 ! n = c1 ! n \<and> d2 ! n = d1 ! n" and
    M1: "mset (zip c2 d2) = mset (zip c1 d1)" and
    S1: "sorted (slice c2 (nat left) (nat (r + 1)))"
    by blast
  let ?second = "if right > l then sortBlockedRow c2 d2 l right else Some (c2, d2)"
  have "\<exists>c3 d3. ?second = Some (c3, d3) \<and>
           length c3 = length c2 \<and> length d3 = length d2 \<and>
           (\<forall>n. int n < l \<or> right < int n \<longrightarrow> c3 ! n = c2 ! n \<and> d3 ! n = d2 ! n) \<and>
           mset (zip c3 d3) = mset (zip c2 d2) \<and>
           sorted (slice c3 (nat l) (nat (right + 1)))"
  proof (cases "right > l")
    case True
    have "\<exists>c' d'. sortBlockedRow c2 d2 l right = Some (c', d') \<and>
           length c' = length c2 \<and> length d' = length d2 \<and>
           (\<forall>n. int n < l \<or> right < int n \<longrightarrow> c' ! n = c2 ! n \<and> d' ! n = d2 ! n) \<and>
           mset (zip c' d') = mset (zip c2 d2) \<and>
           sorted (slice c' (nat l) (nat (right + 1)))"
      by (rule "1.IH"(2)[OF sum inb part refl refl refl first refl True])
         (use True left0 prog rlen len1 len2 dlen fits in simp_all)
    then show ?thesis using True by simp
  next
    case False
    then have "length (slice c2 (nat l) (nat (right + 1))) \<le> 1"
      by (simp add: slice_def)
    then show ?thesis using False by (simp add: sorted_short)
  qed
  then obtain c3 d3 where
    second: "?second = Some (c3, d3)" and
    len3: "length c3 = length c2" "length d3 = length d2" and
    U2: "\<forall>n. int n < l \<or> right < int n \<longrightarrow> c3 ! n = c2 ! n \<and> d3 ! n = d2 ! n" and
    M2: "mset (zip c3 d3) = mset (zip c2 d2)" and
    S2: "sorted (slice c3 (nat l) (nat (right + 1)))"
    by blast
  have run: "sortBlockedRow c d left right = Some (c3, d3)"
    using sum inb part first second by (subst sortBlockedRow.simps) simp
  have unchanged: "c3 ! n = c ! n \<and> d3 ! n = d ! n" if "int n < left \<or> right < int n" for n
    using that U0 U1 U2 prog by auto
  have "sorted (slice c3 (nat left) (nat (right + 1)))"
  proof (rule sorted_from_parts[where ?c1.0 = c1 and ?c2.0 = c2 and l = "nat l" and re = "nat (r + 1)" and v = ?v])
    show "length c2 = length c1" by (rule len2)
    show "length c3 = length c1" using len3 len2 by simp
    show "nat (right + 1) \<le> length c1" using rlen len1 left0 lr by simp
    show "nat left < nat l" using prog left0 by simp
    show "nat left \<le> nat (r + 1)" using ends by simp
    show "nat (r + 1) < nat (right + 1)" using prog ends left0 by simp
    show "nat l \<le> nat (right + 1)" using ends by simp
    show "nat (r + 1) \<le> Suc (nat l)" using ends by simp
    show "\<forall>n. nat left \<le> n \<and> n < nat l \<longrightarrow> c1 ! n \<le> ?v"
    proof (intro allI impI)
      fix n assume "nat left \<le> n \<and> n < nat l"
      then have "left \<le> int n \<and> int n < l" by linarith
      then show "c1 ! n \<le> ?v" using K1 by blast
    qed
    show "\<forall>n. nat (r + 1) \<le> n \<and> n < nat (right + 1) \<longrightarrow> ?v \<le> c1 ! n"
    proof (intro allI impI)
      fix n assume "nat (r + 1) \<le> n \<and> n < nat (right + 1)"
      then have "r < int n \<and> int n \<le> right" by linarith
      then show "?v \<le> c1 ! n" using K2 by blast
    qed
    show "mset c2 = mset c1"
      using M1 len2 len1 dlen by (intro mset_columns_of_rows[of c2 d2 c1 d1]) simp_all
    show "\<forall>n. n < nat left \<or> nat (r + 1) \<le> n \<longrightarrow> c2 ! n = c1 ! n"
    proof (intro allI impI)
      fix n assume "n < nat left \<or> nat (r + 1) \<le> n"
      then have "int n < left \<or> r < int n" by linarith
      then show "c2 ! n = c1 ! n" using U1 by blast
    qed
    show "sorted (slice c2 (nat left) (nat (r + 1)))" by (rule S1)
    show "mset c3 = mset c2"
      using M2 len3 len2 len1 dlen by (intro mset_columns_of_rows[of c3 d3 c2 d2]) simp_all
    show "\<forall>n. n < nat l \<or> nat (right + 1) \<le> n \<longrightarrow> c3 ! n = c2 ! n"
    proof (intro allI impI)
      fix n assume "n < nat l \<or> nat (right + 1) \<le> n"
      then have "int n < l \<or> right < int n" by linarith
      then show "c3 ! n = c2 ! n" using U2 by blast
    qed
    show "sorted (slice c3 (nat l) (nat (right + 1)))" by (rule S2)
  qed
  then show ?case
    using run unchanged len1 len2 len3 M0 M1 M2 by simp
qed

subsection \<open>C2: the row sort\<close>

lemma map_fst_slice_zip:
  assumes "length ys = length xs"
  shows "map fst (slice (zip xs ys) a b) = slice xs a b"
proof -
  have "map fst (slice (zip xs ys) a b) = slice (map fst (zip xs ys)) a b"
    by (simp add: slice_def take_map drop_map)
  then show ?thesis using assms by simp
qed

text \<open>
  Claim C2 as amended. For a sub-range \<open>left \<le> right\<close> inside the two arrays, with
  \<open>2 * right \<le> INT_MAX\<close> and pairwise distinct column indices in the range,
  \<open>sortBlockedRow\<close> returns (it terminates and reads nothing outside the arrays);
  outside the range both arrays are unchanged; inside it the column indices are strictly
  ascending and a permutation of the input's, the (column, block) pairs are a permutation
  of the input's, and the pair at each position of the range is a pair of the input's
  range: every block has moved with its column index.
\<close>

theorem sortBlockedRow_sorts_row:
  assumes "0 \<le> left" "left \<le> right" "right < int (length cols)"
    and "length data = length cols"
    and "2 * right \<le> INT_MAX"
    and "distinct (slice cols (nat left) (nat (right + 1)))"
  shows "\<exists>cols' data'.
     sortBlockedRow cols data left right = Some (cols', data') \<and>
     length cols' = length cols \<and> length data' = length data \<and>
     (\<forall>n. int n < left \<or> right < int n \<longrightarrow>
        cols' ! n = cols ! n \<and> data' ! n = data ! n) \<and>
     sorted_wrt (<) (slice cols' (nat left) (nat (right + 1))) \<and>
     mset (slice cols' (nat left) (nat (right + 1))) =
       mset (slice cols (nat left) (nat (right + 1))) \<and>
     mset (zip (slice cols' (nat left) (nat (right + 1)))
               (slice data' (nat left) (nat (right + 1)))) =
       mset (zip (slice cols (nat left) (nat (right + 1)))
                 (slice data (nat left) (nat (right + 1)))) \<and>
     (\<forall>n. left \<le> int n \<and> int n \<le> right \<longrightarrow>
        (\<exists>k. left \<le> int k \<and> int k \<le> right \<and>
           cols' ! n = cols ! k \<and> data' ! n = data ! k))"
proof -
  let ?a = "nat left" and ?b = "nat (right + 1)"
  obtain c' d' where
    run: "sortBlockedRow cols data left right = Some (c', d')" and
    len: "length c' = length cols" "length d' = length data" and
    U: "\<forall>n. int n < left \<or> right < int n \<longrightarrow> c' ! n = cols ! n \<and> d' ! n = data ! n" and
    M: "mset (zip c' d') = mset (zip cols data)" and
    S: "sorted (slice c' ?a ?b)"
    using sortBlockedRow_spec[OF assms(1-5)] by blast
  have ab: "?a \<le> ?b" "?b \<le> length cols"
    using assms(1-3) by simp_all
  have zlen: "length (zip c' d') = length (zip cols data)"
    using len by simp
  have zU: "\<forall>n<length (zip cols data).
      n < ?a \<or> ?b \<le> n \<longrightarrow> zip c' d' ! n = zip cols data ! n"
  proof (intro allI impI)
    fix n assume n: "n < length (zip cols data)" "n < ?a \<or> ?b \<le> n"
    then have "int n < left \<or> right < int n" by linarith
    then have "c' ! n = cols ! n \<and> d' ! n = data ! n" using U by blast
    then show "zip c' d' ! n = zip cols data ! n"
      using n(1) len assms(4) by simp
  qed
  have rows: "mset (slice (zip c' d') ?a ?b) = mset (slice (zip cols data) ?a ?b)"
    using zlen M ab(1) zU by (rule mset_slice_preserved)
  have "mset (map fst (slice (zip c' d') ?a ?b)) = mset (map fst (slice (zip cols data) ?a ?b))"
    using rows by (metis mset_map)
  then have cols: "mset (slice c' ?a ?b) = mset (slice cols ?a ?b)"
    using len assms(4) by (simp add: map_fst_slice_zip)
  have "distinct (slice c' ?a ?b)"
    using cols assms(6) by (metis mset_eq_imp_distinct_iff)
  then have strict: "sorted_wrt (<) (slice c' ?a ?b)"
    using S by (simp add: strict_sorted_iff)
  have moved: "\<exists>k. left \<le> int k \<and> int k \<le> right \<and> c' ! n = cols ! k \<and> d' ! n = data ! k"
    if n: "left \<le> int n \<and> int n \<le> right" for n
  proof -
    have n': "?a \<le> n" "n < ?b" using n by linarith+
    have "?b \<le> length (zip cols data)" using ab assms(4) by simp
    with zlen M ab(1) obtain k where k: "?a \<le> k" "k < ?b" "zip c' d' ! n = zip cols data ! k"
      using slice_elements_preserved[OF _ _ _ _ zU n'] by blast
    have "n < length c'" "k < length cols" using n' k ab len by simp_all
    then have "c' ! n = cols ! k \<and> d' ! n = data ! k"
      using k(3) len assms(4) by simp
    moreover have "left \<le> int k \<and> int k \<le> right" using k assms(1) by linarith
    ultimately show ?thesis by blast
  qed
  show ?thesis
    using run len U strict cols rows moved by (simp add: slice_zip)
qed

text \<open>A row of seven entries inside an array of nine.\<close>

lemma sortBlockedRow_example:
  "sortBlockedRow [9, 5, 0, 1, 3, 10, 2, -1, -7]
     [''z'', ''a'', ''b'', ''c'', ''d'', ''e'', ''f'', ''g'', ''y''] 1 7 =
   Some ([9, -1, 0, 1, 2, 3, 5, 10, -7],
         [''z'', ''g'', ''b'', ''c'', ''f'', ''d'', ''a'', ''e'', ''y''])"
  by code_simp

theorem sortBlockedRow_sorts_row_witness:
  "sortBlockedRow [9, 5, 0, 1, 3, 10, 2, -1, -7]
     [''z'', ''a'', ''b'', ''c'', ''d'', ''e'', ''f'', ''g'', ''y''] 1 7 =
   Some ([9, -1, 0, 1, 2, 3, 5, 10, -7],
         [''z'', ''g'', ''b'', ''c'', ''f'', ''d'', ''a'', ''e'', ''y'']) \<and>
   sorted_wrt (<) (slice [9, -1, 0, 1, 2, 3, 5, 10, -7 :: int] (nat 1) (nat (7 + 1)))"
proof -
  let ?c = "[9, 5, 0, 1, 3, 10, 2, -1, -7] :: int list"
  let ?d = "[''z'', ''a'', ''b'', ''c'', ''d'', ''e'', ''f'', ''g'', ''y'']"
  have h: "(0::int) \<le> 1" "(1::int) \<le> 7" "7 < int (length ?c)" "length ?d = length ?c"
    "2 * 7 \<le> INT_MAX" "distinct (slice ?c (nat 1) (nat (7 + 1)))"
    by (simp_all add: INT_MAX_def slice_def)
  obtain c' d' where "sortBlockedRow ?c ?d 1 7 = Some (c', d')"
    "sorted_wrt (<) (slice c' (nat 1) (nat (7 + 1)))"
    using sortBlockedRow_sorts_row[OF h] by blast
  then show ?thesis
    using sortBlockedRow_example by simp
qed

text \<open>
  Claim C2 says: for every sub-range. In a row whose last two positions are \<open>2 ^ 30\<close> and
  \<open>2 ^ 30 + 1\<close> the first statement adds the two positions, and the sum does not fit
  an \<open>int\<close>: the sort of this sub-range of distinct column indices does not return.
\<close>

theorem sortBlockedRow_overflow_counterexample:
  "sortBlockedRow hugeColIndices hugeData (2 ^ 30) (2 ^ 30 + 1) = None \<and>
   length hugeColIndices = 2 ^ 30 + 2 \<and> length hugeData = 2 ^ 30 + 2 \<and>
   distinct hugeColIndices"
proof -
  have "sortBlockedRow hugeColIndices hugeData (2 ^ 30) (2 ^ 30 + 1) = None"
    by (subst sortBlockedRow.simps) (simp add: INT_MAX_def)
  moreover have "length hugeColIndices = 2 ^ 30 + 2"
    unfolding hugeColIndices_def by (simp only: length_map length_upt diff_zero)
  moreover have "length hugeData = 2 ^ 30 + 2"
    unfolding hugeData_def by (simp only: length_replicate)
  moreover have "distinct hugeColIndices"
    unfolding hugeColIndices_def by (simp only: distinct_map distinct_upt inj_on_def int_int_eq) simp
  ultimately show ?thesis by blast
qed

section \<open>Allocation, release and soft copy: proofs\<close>

lemma allocateBlockedMatrix_result:
  assumes "0 \<le> Nb'" "Nb' < INT_MAX" "0 \<le> nnzbs'"
  shows "allocateBlockedMatrix h Nb' nnzbs' =
     Inr (h\<lparr>blockArrays := (blockArrays h)(Suc (nextAddr h) \<mapsto>
                map (rawBlocks h (Suc (nextAddr h))) [0..<nat nnzbs']),
             intArrays := (intArrays h)
               (Suc (Suc (nextAddr h)) \<mapsto> map (rawInts h (Suc (Suc (nextAddr h)))) [0..<nat nnzbs'],
                Suc (Suc (Suc (nextAddr h))) \<mapsto>
                  map (rawInts h (Suc (Suc (Suc (nextAddr h))))) [0..<nat (Nb' + 1)]),
             matrices := (matrices h)(nextAddr h \<mapsto>
               \<lparr>nnzValues = Some (Suc (nextAddr h)), colIndices = Some (Suc (Suc (nextAddr h))),
                rowPointers = Some (Suc (Suc (Suc (nextAddr h)))), Nb = Nb', nnzbs = nnzbs'\<rparr>),
             nextAddr := Suc (Suc (Suc (Suc (nextAddr h))))\<rparr>, nextAddr h)"
  using assms
  by (simp add: allocateBlockedMatrix_def newBlockedMatrix_def newBlockArray_def newIntArray_def
      setField_def Let_def)

subsection \<open>C4: allocation\<close>

text \<open>
  Claim C4 says that the three arrays of a freshly allocated matrix are zero-filled. The
  source creates them without an initialiser, so they hold what the storage held: on a
  heap whose unused storage is full of sevens, \<open>allocateBlockedMatrix(1, 1)\<close> returns a
  matrix whose arrays are full of sevens.
\<close>

theorem allocateBlockedMatrix_stale_counterexample:
  "map_sum id (\<lambda>(h, mat). (nnzValuesOf h mat, colIndicesOf h mat, rowPointersOf h mat))
     (allocateBlockedMatrix staleHeap 1 1) =
   Inr (Some [[7, 7, 7, 7, 7, 7, 7, 7, 7]], Some [7], Some [7, 7])"
  by (simp add: allocateBlockedMatrix_result INT_MAX_def staleHeap_def nnzValuesOf_def
      colIndicesOf_def rowPointersOf_def numeral_eq_Suc upt_rec)

text \<open>
  Claim C4 as amended. For \<open>0 \<le> Nb < INT_MAX\<close> and \<open>0 \<le> nnzbs\<close> the allocation succeeds
  and returns a new matrix with \<open>Nb\<close> and \<open>nnzbs\<close> stored and three new, distinct arrays:
  \<open>nnzbs\<close> blocks, \<open>nnzbs\<close> column indices and \<open>Nb + 1\<close> row pointers. Their contents are
  not set by the allocation: they are what the storage held before.
\<close>

theorem allocateBlockedMatrix_shape:
  assumes "0 \<le> Nb'" "Nb' < INT_MAX" "0 \<le> nnzbs'"
  shows "\<exists>h' mat va ca ra.
           allocateBlockedMatrix h Nb' nnzbs' = Inr (h', mat) \<and>
           matrices h' mat = Some \<lparr>nnzValues = Some va, colIndices = Some ca,
             rowPointers = Some ra, Nb = Nb', nnzbs = nnzbs'\<rparr> \<and>
           va \<noteq> ca \<and> va \<noteq> ra \<and> ca \<noteq> ra \<and>
           nnzValuesOf h' mat = Some (map (rawBlocks h va) [0..<nat nnzbs']) \<and>
           colIndicesOf h' mat = Some (map (rawInts h ca) [0..<nat nnzbs']) \<and>
           rowPointersOf h' mat = Some (map (rawInts h ra) [0..<nat (Nb' + 1)]) \<and>
           (\<forall>vs cs rs. nnzValuesOf h' mat = Some vs \<and> colIndicesOf h' mat = Some cs \<and>
              rowPointersOf h' mat = Some rs \<longrightarrow>
              int (length vs) = nnzbs' \<and> int (length cs) = nnzbs' \<and> int (length rs) = Nb' + 1)"
  using assms
  by (simp add: allocateBlockedMatrix_result[OF assms] nnzValuesOf_def colIndicesOf_def
      rowPointersOf_def)

theorem allocateBlockedMatrix_shape_witness:
  "map_sum id (\<lambda>(h, mat). (matrices h mat, map_option length (nnzValuesOf h mat),
       map_option length (colIndicesOf h mat), map_option length (rowPointersOf h mat)))
     (allocateBlockedMatrix staleHeap 2 3) =
   Inr (Some \<lparr>nnzValues = Some 1, colIndices = Some 2, rowPointers = Some 3, Nb = 2, nnzbs = 3\<rparr>,
        Some 3, Some 3, Some 3)"
proof -
  have "(0::int) \<le> 2" "(2::int) < INT_MAX" "(0::int) \<le> 3"
    by (simp_all add: INT_MAX_def)
  from allocateBlockedMatrix_shape[OF this, of staleHeap]
  show ?thesis
    by (auto simp: allocateBlockedMatrix_result INT_MAX_def staleHeap_def)
qed

subsection \<open>C5: soft copy\<close>

text \<open>
  Claim C5. The soft copy of a live matrix is a new struct whose three array pointers and
  two counts equal the source's. No array is created: the heap's arrays are the same
  before and after, and the source struct is still there, unchanged.
\<close>

theorem soft_copyBlockedMatrix_aliases:
  assumes "matrices h p = Some m"
  shows "\<exists>h' q c.
           soft_copyBlockedMatrix h (Some p) = Inr (h', q) \<and>
           matrices h' q = Some c \<and> matrices h' p = Some m \<and>
           nnzValues c = nnzValues m \<and> colIndices c = colIndices m \<and>
           rowPointers c = rowPointers m \<and> Nb c = Nb m \<and> nnzbs c = nnzbs m \<and>
           blockArrays h' = blockArrays h \<and> intArrays h' = intArrays h"
  using assms
  by (simp add: soft_copyBlockedMatrix_def newBlockedMatrix_def setField_def Let_def)

theorem soft_copyBlockedMatrix_aliases_witness:
  "map_sum id (\<lambda>(h, q). (q, matrices h q, matrices h 0, dom (blockArrays h), dom (intArrays h)))
     (soft_copyBlockedMatrix sampleHeap (Some 0)) =
   Inr (4, Some \<lparr>nnzValues = Some 1, colIndices = Some 2, rowPointers = Some 3, Nb = 1, nnzbs = 1\<rparr>,
        Some \<lparr>nnzValues = Some 1, colIndices = Some 2, rowPointers = Some 3, Nb = 1, nnzbs = 1\<rparr>,
        {1}, {2, 3})"
proof -
  have "matrices sampleHeap 0 =
    Some \<lparr>nnzValues = Some 1, colIndices = Some 2, rowPointers = Some 3, Nb = 1, nnzbs = 1\<rparr>"
    by (simp add: sampleHeap_def)
  from soft_copyBlockedMatrix_aliases[OF this]
  show ?thesis
    by (auto simp: sampleHeap_def soft_copyBlockedMatrix_def newBlockedMatrix_def setField_def)
qed

subsection \<open>C6: release\<close>



section \<open>Sorting the NNCs and applying EDITNNC: proofs\<close>

lemma nncLess_key: "nncLess a b \<longleftrightarrow> nncKey a < nncKey b"
  by (auto simp: nncLess_def nncKey_def less_prod_def)

lemma nncSorted_key: "nncSorted xs \<longleftrightarrow> sorted (map nncKey xs)"
  by (simp add: nncSorted_def nncLess_key sorted_map not_less)

lemma nncKey_eq: "nncKey a = nncKey b \<longleftrightarrow> cell1 a = cell1 b \<and> cell2 a = cell2 b"
  by (simp add: nncKey_def)

lemma nncKey_editOne [simp]: "nncKey (editOne e d) = nncKey d"
  by (simp add: editOne_def nncKey_def)

lemma nncKey_comp_editOne [simp]: "nncKey \<circ> editOne e = nncKey"
  by (rule ext) simp

lemma editOne_other: "nncKey d \<noteq> nncKey e \<Longrightarrow> editOne e d = d"
  by (auto simp: editOne_def nncKey_def)

lemma map_editOne_other: "\<forall>x\<in>set xs. nncKey x \<noteq> nncKey e \<Longrightarrow> map (editOne e) xs = xs"
  by (induction xs) (simp_all add: editOne_other)

lemma sorted_dropWhile_less:
  "sorted (map f ys) \<Longrightarrow> \<forall>x\<in>set (dropWhile (\<lambda>d. f d < k) ys). (k::'k::linorder) \<le> f x"
  by (induction ys) (auto simp: not_less)

lemma lower_bound_split:
  "take (lower_bound xs c v) xs = take c xs @ takeWhile (\<lambda>d. nncKey d < nncKey v) (drop c xs)"
  "drop (lower_bound xs c v) xs = dropWhile (\<lambda>d. nncKey d < nncKey v) (drop c xs)"
  by (simp_all add: lower_bound_def nncLess_key take_add takeWhile_eq_take[symmetric]
      dropWhile_eq_drop add.commute)

lemma lower_bound_range: "c \<le> length xs \<Longrightarrow> c \<le> lower_bound xs c v \<and> lower_bound xs c v \<le> length xs"
proof -
  assume c: "c \<le> length xs"
  have "length (takeWhile (\<lambda>d. nncLess d v) (drop c xs)) \<le> length (drop c xs)"
    by (rule length_takeWhile_le)
  then show ?thesis using c by (simp add: lower_bound_def)
qed

lemma lower_bound_below:
  assumes "\<forall>x\<in>set (take c xs). nncKey x < nncKey v"
  shows "\<forall>x\<in>set (take (lower_bound xs c v) xs). nncKey x < nncKey v"
  using assms by (auto simp: lower_bound_split dest: set_takeWhileD)

lemma lower_bound_above:
  assumes "sorted (map nncKey xs)"
  shows "\<forall>x\<in>set (drop (lower_bound xs c v) xs). nncKey v \<le> nncKey x"
proof -
  have "sorted (map nncKey (drop c xs))"
    using assms by (simp add: drop_map[symmetric] sorted_wrt_drop)
  then show ?thesis
    unfolding lower_bound_split by (rule sorted_dropWhile_less)
qed

lemma multiplyMatches_run:
  assumes "sorted (map nncKey (drop c xs))" "\<forall>x\<in>set (drop c xs). nncKey e \<le> nncKey x"
  shows "multiplyMatches xs c e = take c xs @ map (editOne e) (drop c xs)"
  using assms
proof (induction xs c e rule: multiplyMatches.induct)
  case (1 xs c e)
  show ?case
  proof (cases "c < length xs \<and> cell1 (xs ! c) = cell1 e \<and> cell2 (xs ! c) = cell2 e")
    case True
    let ?xs' = "xs[c := (xs ! c)\<lparr>trans := trans (xs ! c) * trans e\<rparr>]"
    have d: "drop c xs = xs ! c # drop (Suc c) xs"
      using True by (simp add: Cons_nth_drop_Suc)
    have d': "drop (c + 1) ?xs' = drop (Suc c) xs"
      by simp
    have t': "take (Suc c) ?xs' = take c xs @ [editOne e (xs ! c)]"
      using True by (simp add: take_Suc_conv_app_nth editOne_def)
    have s': "sorted (map nncKey (drop (c + 1) ?xs'))"
      and a': "\<forall>x\<in>set (drop (c + 1) ?xs'). nncKey e \<le> nncKey x"
      using "1.prems" unfolding d' d by simp_all
    have "multiplyMatches ?xs' (c + 1) e = take (c + 1) ?xs' @ map (editOne e) (drop (c + 1) ?xs')"
      by (rule "1.IH"[OF True s' a'])
    then show ?thesis
      using True by (subst multiplyMatches.simps) (simp add: d t')
  next
    case False
    have "map (editOne e) (drop c xs) = drop c xs"
    proof (cases "c < length xs")
      case c: True
      then have d: "drop c xs = xs ! c # drop (Suc c) xs"
        by (simp add: Cons_nth_drop_Suc)
      have ne: "nncKey (xs ! c) \<noteq> nncKey e"
        using False c by (simp add: nncKey_eq)
      moreover have "nncKey e \<le> nncKey (xs ! c)"
        using "1.prems"(2) d by simp
      ultimately have lt: "nncKey e < nncKey (xs ! c)"
        by simp
      have "\<forall>x\<in>set (drop c xs). nncKey (xs ! c) \<le> nncKey x"
        using "1.prems"(1) unfolding d by auto
      then have "\<forall>x\<in>set (drop c xs). nncKey x \<noteq> nncKey e"
        using lt by auto
      then show ?thesis by (rule map_editOne_other)
    qed simp
    then show ?thesis
      using False by (subst multiplyMatches.simps) auto
  qed
qed

lemma multiplyMatches_at_bound:
  assumes "sorted (map nncKey xs)"
    and "\<forall>x\<in>set (take c xs). nncKey x < nncKey e"
    and "\<forall>x\<in>set (drop c xs). nncKey e \<le> nncKey x"
  shows "multiplyMatches xs c e = map (editOne e) xs"
proof -
  have "sorted (map nncKey (drop c xs))"
    using assms(1) by (simp add: drop_map[symmetric] sorted_wrt_drop)
  then have "multiplyMatches xs c e = take c xs @ map (editOne e) (drop c xs)"
    using assms(3) by (rule multiplyMatches_run)
  moreover have "map (editOne e) (take c xs) = take c xs"
    using assms(2) by (intro map_editOne_other) auto
  ultimately have "multiplyMatches xs c e = map (editOne e) (take c xs @ drop c xs)"
    by (simp only: map_append)
  then show ?thesis by simp
qed

lemma below_next_edits:
  assumes "sorted (map nncKey (e # es))" "\<forall>x\<in>set (take c xs). nncKey x < nncKey e"
  shows "\<forall>x\<in>set (take c xs). \<forall>e'\<in>set es. nncKey x < nncKey e'"
    and "\<forall>x\<in>set (take c (map (editOne e) xs)). \<forall>e'\<in>set es. nncKey x < nncKey e'"
proof -
  have le: "\<forall>e'\<in>set es. nncKey e \<le> nncKey e'"
    using assms(1) by simp
  show "\<forall>x\<in>set (take c xs). \<forall>e'\<in>set es. nncKey x < nncKey e'"
    using assms(2) le by (meson less_le_trans)
  then show "\<forall>x\<in>set (take c (map (editOne e) xs)). \<forall>e'\<in>set es. nncKey x < nncKey e'"
    by (auto simp: take_map)
qed

lemma all_below_unedited:
  assumes "\<forall>x\<in>set (take c xs). nncKey x < nncKey e" "c = length xs"
  shows "map (editOne e) xs = xs"
  using assms by (intro map_editOne_other) auto

lemma applyEdits_run:
  assumes "sorted (map nncKey xs)" "sorted (map nncKey edits)" "c \<le> length xs"
    and "\<forall>x\<in>set (take c xs). \<forall>e\<in>set edits. nncKey x < nncKey e"
    and "applyEdits xs c w lg edits = Inr (out, w')"
  shows "out = fold (\<lambda>e. map (editOne e)) edits xs"
  using assms
proof (induction edits arbitrary: xs c w)
  case Nil
  then show ?case by simp
next
  case (Cons e es)
  have es: "sorted (map nncKey es)"
    using Cons.prems(2) by simp
  have below: "\<forall>x\<in>set (take c xs). nncKey x < nncKey e"
    using Cons.prems(4) by simp
  let ?v = "\<lparr>cell1 = cell1 e, cell2 = cell2 e, trans = 0\<rparr>"
  let ?c' = "lower_bound xs c ?v"
  have v: "nncKey ?v = nncKey e"
    by (simp add: nncKey_def)
  note run = Cons.prems(5)
  consider
    (end_logged) "c = length xs" "lg"
    | (end_silent) "c = length xs" "\<not> lg"
    | (search_end) "c < length xs" "nncKey (xs ! c) \<noteq> nncKey e" "?c' = length xs" "lg"
    | (search) "c < length xs" "nncKey (xs ! c) \<noteq> nncKey e" "\<not> (?c' = length xs \<and> lg)"
    | (same) "c < length xs" "nncKey (xs ! c) = nncKey e"
    using Cons.prems(3) by fastforce
  then show ?case
  proof cases
    case end_logged
    then have "applyEdits xs c (w @ [(cell1 e, cell2 e)]) lg es = Inr (out, w')"
      using run by simp
    then have "out = fold (\<lambda>e. map (editOne e)) es xs"
      using Cons.prems(1) es Cons.prems(3) below_next_edits(1)[OF Cons.prems(2) below]
      by (rule Cons.IH[rotated -1])
    then show ?thesis
      using all_below_unedited[OF below end_logged(1)] by simp
  next
    case end_silent
    then show ?thesis using run by simp
  next
    case search_end
    have below': "\<forall>x\<in>set (take ?c' xs). nncKey x < nncKey e"
      using lower_bound_below[of c xs ?v] below by (simp add: v)
    have "applyEdits xs ?c' (w @ [(cell1 e, cell2 e)]) lg es = Inr (out, w')"
      using run search_end by (simp add: nncKey_eq Let_def)
    then have "out = fold (\<lambda>e. map (editOne e)) es xs"
      using Cons.prems(1) es _ below_next_edits(1)[OF Cons.prems(2) below']
      by (rule Cons.IH[rotated -1]) (simp add: search_end(3))
    then show ?thesis
      using all_below_unedited[OF below' search_end(3)] by simp
  next
    case search
    have below': "\<forall>x\<in>set (take ?c' xs). nncKey x < nncKey e"
      using lower_bound_below[of c xs ?v] below by (simp add: v)
    have above': "\<forall>x\<in>set (drop ?c' xs). nncKey e \<le> nncKey x"
      using lower_bound_above[OF Cons.prems(1), of c ?v] by (simp add: v)
    have mm: "multiplyMatches xs ?c' e = map (editOne e) xs"
      using Cons.prems(1) below' above' by (rule multiplyMatches_at_bound)
    have "applyEdits (map (editOne e) xs) ?c' w lg es = Inr (out, w')"
      using run search by (auto simp: nncKey_eq Let_def mm)
    then have "out = fold (\<lambda>e. map (editOne e)) es (map (editOne e) xs)"
      using _ es _ below_next_edits(2)[OF Cons.prems(2) below']
      by (rule Cons.IH[rotated -1])
         (use Cons.prems(1,3) lower_bound_range[of c xs ?v] in simp_all)
    then show ?thesis by simp
  next
    case same
    have d: "drop c xs = xs ! c # drop (Suc c) xs"
      using same(1) by (simp add: Cons_nth_drop_Suc)
    have "sorted (map nncKey (drop c xs))"
      using Cons.prems(1) by (simp add: drop_map[symmetric] sorted_wrt_drop)
    then have above: "\<forall>x\<in>set (drop c xs). nncKey e \<le> nncKey x"
      unfolding d using same(2) by auto
    have mm: "multiplyMatches xs c e = map (editOne e) xs"
      using Cons.prems(1) below above by (rule multiplyMatches_at_bound)
    have "applyEdits (map (editOne e) xs) c w lg es = Inr (out, w')"
      using run same by (auto simp: nncKey_eq mm)
    then have "out = fold (\<lambda>e. map (editOne e)) es (map (editOne e) xs)"
      using _ es _ below_next_edits(2)[OF Cons.prems(2) below]
      by (rule Cons.IH[rotated -1]) (use Cons.prems(1,3) in simp_all)
    then show ?thesis by simp
  qed
qed

lemma fold_editOne:
  "fold (\<lambda>e. map (editOne e)) edits xs = map (\<lambda>d. d\<lparr>trans := editedTrans edits d\<rparr>) xs"
proof (induction edits arbitrary: xs)
  case Nil
  then show ?case by (simp add: editedTrans_def)
next
  case (Cons e es)
  have "(editOne e d)\<lparr>trans := editedTrans es (editOne e d)\<rparr> = d\<lparr>trans := editedTrans (e # es) d\<rparr>" for d
    by (auto simp: editOne_def editedTrans_def)
  then show ?case by (simp add: Cons.IH)
qed

lemma nncKey_fun: "nncKey = (\<lambda>d. (cell1 d, cell2 d))"
  by (rule ext) (simp add: nncKey_def)

subsection \<open>Runs with the log flag on\<close>

text \<open>
  With the flag on, the test before the read does its work: every run returns, whatever
  the NNCs and the edits are.
\<close>

lemma length_multiplyMatches [simp]: "length (multiplyMatches xs c e) = length xs"
proof (induction xs c e rule: multiplyMatches.induct)
  case (1 xs c e)
  show ?case
  proof (cases "c < length xs \<and> cell1 (xs ! c) = cell1 e \<and> cell2 (xs ! c) = cell2 e")
    case True
    then show ?thesis
      using "1.IH"[OF True] by (subst multiplyMatches.simps) simp
  next
    case False
    then show ?thesis by (subst multiplyMatches.simps) auto
  qed
qed

lemma applyEdits_logged_returns:
  "c \<le> length xs \<Longrightarrow> \<exists>out w'. applyEdits xs c w True edits = Inr (out, w')"
proof (induction edits arbitrary: xs c w)
  case Nil
  then show ?case by simp
next
  case (Cons e es)
  let ?c' = "lower_bound xs c \<lparr>cell1 = cell1 e, cell2 = cell2 e, trans = 0\<rparr>"
  have c': "?c' \<le> length xs"
    using lower_bound_range[OF Cons.prems] by simp
  have ih: "\<exists>out w'. applyEdits ys k u True es = Inr (out, w')" if "k \<le> length ys" for ys k u
    using that by (rule Cons.IH)
  show ?case
    using Cons.prems c' by (auto simp: Let_def intro!: ih)
qed

lemma sortNncAndApplyEditnnc_logged_returns:
  "\<exists>out w. sortNncAndApplyEditnnc std_sort nncData editnncData True = Inr (out, w)"
  unfolding sortNncAndApplyEditnnc_def by (rule applyEdits_logged_returns) simp


subsection \<open>The sort of the examples\<close>

text \<open>Insertion sort returns a sorted permutation, as \<open>std::sort\<close> is assumed to.\<close>

lemma mset_insertNnc: "mset (insertNnc d xs) = add_mset d (mset xs)"
  by (induction xs) simp_all

lemma set_insertNnc: "set (insertNnc d xs) = insert d (set xs)"
  by (induction xs) auto

lemma nncSorted_insertNnc: "nncSorted xs \<Longrightarrow> nncSorted (insertNnc d xs)"
  by (induction xs) (auto simp: nncSorted_def set_insertNnc nncLess_def)

lemma insertionSort_sorted_permutation:
  "mset (insertionSort xs) = mset xs \<and> nncSorted (insertionSort xs)"
proof (induction xs)
  case Nil
  then show ?case by (simp add: insertionSort_def nncSorted_def)
next
  case (Cons x xs)
  then show ?case
    using nncSorted_insertNnc[of "insertionSort xs" x]
    by (simp add: insertionSort_def mset_insertNnc)
qed

subsection \<open>C9: reading at the end of the NNC list\<close>

text \<open>
  Claim C9 says that no run reads an entry past the end of the NNC list, whatever the log
  flag. The test that guards the read is \<open>candidate == nncData.end() && log\<close>: with the
  flag off it never holds, and the next statement reads \<open>candidate->cell1\<close>. With no NNC
  at all and one edit, and with one NNC and two edits that are both greater than it, the
  run with the flag off reads at the end.
\<close>

theorem sortNncAndApplyEditnnc_reads_at_end:
  "sortNncAndApplyEditnnc insertionSort [] [\<lparr>cell1 = 1, cell2 = 2, trans = 2\<rparr>] False = Inl ReadAtEnd \<and>
   sortNncAndApplyEditnnc insertionSort [\<lparr>cell1 = 1, cell2 = 2, trans = 1\<rparr>]
     [\<lparr>cell1 = 5, cell2 = 6, trans = 2\<rparr>, \<lparr>cell1 = 7, cell2 = 8, trans = 3\<rparr>] False = Inl ReadAtEnd"
  by (simp add: sortNncAndApplyEditnnc_def insertionSort_def lower_bound_def nncLess_def
      multiplyMatches.simps)

subsection \<open>C10: the result of the run\<close>

text \<open>
  Claim C10 says that every entry ends with its transmissibility multiplied by every edit
  for its cell pair. The search for an edit starts at the position of the previous edit's
  first match, so an edit that comes after a greater one is not found: with the edits for
  (3, 4) and then (1, 2), the entry (1, 2) keeps its transmissibility 1 where the claim
  asks for 5.
\<close>

theorem sortNncAndApplyEditnnc_unsorted_edits_counterexample:
  "sortNncAndApplyEditnnc insertionSort
     [\<lparr>cell1 = 3, cell2 = 4, trans = 1\<rparr>, \<lparr>cell1 = 1, cell2 = 2, trans = 1\<rparr>]
     [\<lparr>cell1 = 3, cell2 = 4, trans = 2\<rparr>, \<lparr>cell1 = 1, cell2 = 2, trans = 5\<rparr>] True =
   Inr ([\<lparr>cell1 = 1, cell2 = 2, trans = 1\<rparr>, \<lparr>cell1 = 3, cell2 = 4, trans = 2\<rparr>], []) \<and>
   editedTrans [\<lparr>cell1 = 3, cell2 = 4, trans = 2\<rparr>, \<lparr>cell1 = 1, cell2 = 2, trans = 5\<rparr>]
     \<lparr>cell1 = 1, cell2 = 2, trans = 1\<rparr> = 5"
  by (simp add: sortNncAndApplyEditnnc_def insertionSort_def lower_bound_def nncLess_def
      multiplyMatches.simps editedTrans_def)

text \<open>
  Claim C10 as amended: for edits that are sorted by (cell1, then cell2). When the run
  returns, the result is the sorted input with every entry's transmissibility multiplied
  by the \<open>trans\<close> of each edit for its cell pair, once per edit; the cells are unchanged,
  the result is sorted, and its cell pairs are a permutation of the input's.
\<close>

theorem sortNncAndApplyEditnnc_sorted_edits:
  assumes "mset (std_sort nncData) = mset nncData"
    and "nncSorted (std_sort nncData)"
    and "nncSorted editnncData"
    and "sortNncAndApplyEditnnc std_sort nncData editnncData log' = Inr (out, warnings)"
  shows "out = map (\<lambda>d. d\<lparr>trans := editedTrans editnncData d\<rparr>) (std_sort nncData) \<and>
         nncSorted out \<and>
         map cell1 out = map cell1 (std_sort nncData) \<and>
         map cell2 out = map cell2 (std_sort nncData) \<and>
         mset (map (\<lambda>d. (cell1 d, cell2 d)) out) = mset (map (\<lambda>d. (cell1 d, cell2 d)) nncData)"
proof -
  have "out = fold (\<lambda>e. map (editOne e)) editnncData (std_sort nncData)"
    using assms(2,3,4) unfolding nncSorted_key sortNncAndApplyEditnnc_def
    by (intro applyEdits_run[where c = 0]) simp_all
  then have out: "out = map (\<lambda>d. d\<lparr>trans := editedTrans editnncData d\<rparr>) (std_sort nncData)"
    by (simp add: fold_editOne)
  have key: "map nncKey out = map nncKey (std_sort nncData)"
    unfolding out by (simp add: nncKey_def comp_def)
  have sorted_out: "nncSorted out"
    using assms(2) key by (simp add: nncSorted_key)
  have c1: "map cell1 out = map cell1 (std_sort nncData)"
    and c2: "map cell2 out = map cell2 (std_sort nncData)"
    unfolding out by (simp_all add: comp_def)
  have "mset (map nncKey (std_sort nncData)) = mset (map nncKey nncData)"
    using assms(1) by (metis mset_map)
  then have "mset (map nncKey out) = mset (map nncKey nncData)"
    using key by simp
  then have perm: "mset (map (\<lambda>d. (cell1 d, cell2 d)) out) = mset (map (\<lambda>d. (cell1 d, cell2 d)) nncData)"
    unfolding nncKey_fun .
  from out sorted_out c1 c2 perm show ?thesis
    by (intro conjI)
qed

theorem sortNncAndApplyEditnnc_sorted_edits_witness:
  "sortNncAndApplyEditnnc insertionSort
     [\<lparr>cell1 = 3, cell2 = 4, trans = 1\<rparr>, \<lparr>cell1 = 1, cell2 = 2, trans = 1\<rparr>,
      \<lparr>cell1 = 3, cell2 = 4, trans = 10\<rparr>]
     [\<lparr>cell1 = 1, cell2 = 2, trans = 5\<rparr>, \<lparr>cell1 = 3, cell2 = 4, trans = 2\<rparr>,
      \<lparr>cell1 = 3, cell2 = 4, trans = 3\<rparr>, \<lparr>cell1 = 9, cell2 = 9, trans = 7\<rparr>] True =
   Inr ([\<lparr>cell1 = 1, cell2 = 2, trans = 5\<rparr>, \<lparr>cell1 = 3, cell2 = 4, trans = 6\<rparr>,
         \<lparr>cell1 = 3, cell2 = 4, trans = 60\<rparr>], [(9, 9)]) \<and>
   nncSorted [\<lparr>cell1 = 1, cell2 = 2, trans = 5\<rparr>, \<lparr>cell1 = 3, cell2 = 4, trans = 6\<rparr>,
         \<lparr>cell1 = 3, cell2 = 4, trans = 60\<rparr>]"
proof -
  let ?nnc = "[\<lparr>cell1 = 3, cell2 = 4, trans = 1\<rparr>, \<lparr>cell1 = 1, cell2 = 2, trans = 1\<rparr>,
      \<lparr>cell1 = 3, cell2 = 4, trans = 10\<rparr>]"
  let ?edits = "[\<lparr>cell1 = 1, cell2 = 2, trans = 5\<rparr>, \<lparr>cell1 = 3, cell2 = 4, trans = 2\<rparr>,
      \<lparr>cell1 = 3, cell2 = 4, trans = 3\<rparr>, \<lparr>cell1 = 9, cell2 = 9, trans = 7\<rparr>]"
  let ?out = "[\<lparr>cell1 = 1, cell2 = 2, trans = 5\<rparr>, \<lparr>cell1 = 3, cell2 = 4, trans = 6\<rparr>,
         \<lparr>cell1 = 3, cell2 = 4, trans = 60\<rparr>]"
  have s: "insertionSort ?nnc = [\<lparr>cell1 = 1, cell2 = 2, trans = 1\<rparr>, \<lparr>cell1 = 3, cell2 = 4, trans = 1\<rparr>,
      \<lparr>cell1 = 3, cell2 = 4, trans = 10\<rparr>]"
    by (simp add: insertionSort_def nncLess_def)
  have p: "mset (insertionSort ?nnc) = mset ?nnc"
    unfolding s by simp
  have so: "nncSorted (insertionSort ?nnc)"
    unfolding s by (simp add: nncSorted_def nncLess_def)
  have se: "nncSorted ?edits"
    by (simp add: nncSorted_def nncLess_def)
  have run: "sortNncAndApplyEditnnc insertionSort ?nnc ?edits True = Inr (?out, [(9, 9)])"
    unfolding sortNncAndApplyEditnnc_def s
    by (simp add: lower_bound_def nncLess_def multiplyMatches.simps)
  have "nncSorted ?out"
    using sortNncAndApplyEditnnc_sorted_edits[OF p so se run] by (rule conjunct1[OF conjunct2])
  with run show ?thesis by (rule conjI)
qed

end
